theory Spec2Isabelle
  imports Main "HOL-Library.AList"
begin

section \<open>The action instance tree\<close>

text \<open>
  The model follows the class \<^verbatim>\<open>FragmentActionInstance\<close>. The stored form of an
  action, \<^verbatim>\<open>ActionInstance\<close>, is its data and, under \<^verbatim>\<open>children\<close>, a record from
  group id to a list of stored actions. A stored action without \<^verbatim>\<open>children\<close>, or
  with a group whose value is undefined (which the constructor skips), is one without
  that group. The field \<^verbatim>\<open>instance\<close> of the data is named after its getter,
  \<^verbatim>\<open>connectionId\<close>, and the field \<^verbatim>\<open>id\<close> is \<open>ident\<close>. Option values are opaque,
  and strings here; the data always has its options.
\<close>

record action_data =
  ident :: string
  connectionId :: string
  action :: string
  options :: "(string \<times> string) list"
  disabled :: bool
  headline :: "string option"
  upgradeIndex :: "int option"

datatype action_instance =
  ActionInstance (idata: action_data) (ichildren: "(string \<times> action_instance list) list")

text \<open>
  The object \<^verbatim>\<open>FragmentActionInstance\<close>. Its \<^verbatim>\<open>#data\<close> is
  \<^verbatim>\<open>cloneDeep(data)\<close>, the whole stored action: although the field is typed
  \<^verbatim>\<open>Omit<ActionInstance, 'children'>\<close>, nothing removes the stored children from it.
  \<open>adata\<close> and \<open>dataChildren\<close> together are \<^verbatim>\<open>#data\<close>. \<open>children\<close> is
  \<^verbatim>\<open>#children\<close>, a \<^verbatim>\<open>Map\<close> from group id to the action list of the group: an
  association list in insertion order.
\<close>

datatype fragment =
  Fragment (adata: action_data) (dataChildren: "(string \<times> action_instance list) list")
    (children: "(string \<times> fragment list) list")

record action_definition =
  supportsChildActionGroups :: "string list"

type_synonym instance_definitions = "string \<Rightarrow> string \<Rightarrow> action_definition option"

datatype notification =
    ActionDelete string action_instance
  | ActionUpdate string action_instance string

datatype error =
    LearnAlreadyRunning
  | NotSupported string
  | LearnCallThrew
  | OnlyInternalActionsCanHaveChildren
  | ActionCannotAcceptChildren
  | ActionCannotAcceptChildrenInGroup

text \<open>JavaScript truthiness of an optional string: \<^verbatim>\<open>undefined\<close> and the empty string are falsy.\<close>

definition truthy :: "string option \<Rightarrow> bool" where
  "truthy v = (case v of None \<Rightarrow> False | Some x \<Rightarrow> x \<noteq> [])"

definition getDefinition :: "instance_definitions \<Rightarrow> fragment \<Rightarrow> action_definition option" where
  "getDefinition defs a = defs (connectionId (adata a)) (action (adata a))"

subsection \<open>Child groups\<close>

text \<open>
  \<^verbatim>\<open>#getOrCreateActionGroup\<close>. The result is the group's list, or the error thrown,
  together with the instance after the call.
\<close>

definition getOrCreateActionGroup ::
  "instance_definitions \<Rightarrow> string \<Rightarrow> fragment \<Rightarrow> (error + fragment list) \<times> fragment" where
  "getOrCreateActionGroup defs groupId a =
     (case map_of (children a) groupId of
        Some existing \<Rightarrow> (Inr existing, a)
      | None \<Rightarrow>
          (case (if connectionId (adata a) = ''internal'' then getDefinition defs a else None) of
             None \<Rightarrow> (Inl ActionCannotAcceptChildren, a)
           | Some definition \<Rightarrow>
               if groupId \<notin> set (supportsChildActionGroups definition)
               then (Inl ActionCannotAcceptChildrenInGroup, a)
               else (Inr [],
                     Fragment (adata a) (dataChildren a) (AList.update groupId [] (children a)))))"

text \<open>A child group is held by reference; a change of its list is written back to the map.\<close>

definition setGroup :: "string \<Rightarrow> fragment list \<Rightarrow> fragment \<Rightarrow> fragment" where
  "setGroup groupId actions a =
     Fragment (adata a) (dataChildren a) (AList.update groupId actions (children a))"

subsection \<open>Construction from stored data\<close>

text \<open>
  The constructor, with \<^verbatim>\<open>nanoid()\<close> as a supply: the \<open>n\<close>-th call returns
  \<open>nanoid n\<close>, and the counter is threaded through. \<open>loadChildren\<close> is the
  constructor's loop over \<^verbatim>\<open>Object.entries(data.children)\<close>; a group that
  \<^verbatim>\<open>#getOrCreateActionGroup\<close> refuses is logged and left out.

  Modelled from the spec: \<^verbatim>\<open>FragmentActionList\<close> is not among the sources; an
  action list is an ordered sequence of action instances. Its \<^verbatim>\<open>loadStorage(actions,
  skipSubscribe, isCloned)\<close> replaces the list by one new instance for each stored action,
  in order (here \<open>loadStorage\<close>, called with \<^verbatim>\<open>skipSubscribe = true\<close>).
\<close>

fun construct ::
    "instance_definitions \<Rightarrow> (nat \<Rightarrow> string) \<Rightarrow> bool \<Rightarrow> action_instance \<Rightarrow> nat \<Rightarrow> fragment \<times> nat"
  and loadStorage ::
    "instance_definitions \<Rightarrow> (nat \<Rightarrow> string) \<Rightarrow> bool \<Rightarrow> action_instance list \<Rightarrow> nat \<Rightarrow>
       fragment list \<times> nat"
  and loadChildren ::
    "instance_definitions \<Rightarrow> (nat \<Rightarrow> string) \<Rightarrow> bool \<Rightarrow> (string \<times> action_instance list) list \<Rightarrow>
       fragment \<Rightarrow> nat \<Rightarrow> fragment \<times> nat"
where
  "construct defs nanoid isCloned (ActionInstance d sc) n =
     (let d1 = (if isCloned then d\<lparr>ident := nanoid n\<rparr> else d);
          n1 = (if isCloned then Suc n else n)
      in if connectionId d = ''internal''
         then loadChildren defs nanoid isCloned sc (Fragment d1 sc []) n1
         else (Fragment d1 sc [], n1))"
| "loadStorage defs nanoid isCloned [] n = ([], n)"
| "loadStorage defs nanoid isCloned (x # xs) n =
     (case construct defs nanoid isCloned x n of
        (a, n1) \<Rightarrow>
          (case loadStorage defs nanoid isCloned xs n1 of
             (as, n2) \<Rightarrow> (a # as, n2)))"
| "loadChildren defs nanoid isCloned [] this n = (this, n)"
| "loadChildren defs nanoid isCloned (g # gs) this n =
     (case getOrCreateActionGroup defs (fst g) this of
        (Inl e, this1) \<Rightarrow> loadChildren defs nanoid isCloned gs this1 n
      | (Inr childGroup, this1) \<Rightarrow>
          (case loadStorage defs nanoid isCloned (snd g) n of
             (actions, n1) \<Rightarrow>
               loadChildren defs nanoid isCloned gs (setGroup (fst g) actions this1) n1))"

subsection \<open>Serialisation and notifications\<close>

text \<open>
  \<^verbatim>\<open>asActionInstance\<close>: a copy of \<^verbatim>\<open>#data\<close>, in which, when the connection is
  \<^verbatim>\<open>internal\<close>, \<^verbatim>\<open>children\<close> is replaced by the serialised child groups. For
  another connection the children that \<^verbatim>\<open>#data\<close> holds stay in the copy.

  Modelled from the spec: \<^verbatim>\<open>asActionInstances\<close>, \<^verbatim>\<open>cleanup\<close> and
  \<^verbatim>\<open>subscribe\<close> of \<^verbatim>\<open>FragmentActionList\<close> (not among the sources) apply the
  method of the same name to each action of the list, in order (the functions on lists
  below); the functions on groups are the loops over \<^verbatim>\<open>this.#children\<close>.
\<close>

fun asActionInstance :: "fragment \<Rightarrow> action_instance"
  and asActionInstances :: "fragment list \<Rightarrow> action_instance list"
  and asChildren :: "(string \<times> fragment list) list \<Rightarrow> (string \<times> action_instance list) list"
where
  "asActionInstance (Fragment d sc ch) =
     (if connectionId d = ''internal'' then ActionInstance d (asChildren ch)
      else ActionInstance d sc)"
| "asActionInstances [] = []"
| "asActionInstances (a # as) = asActionInstance a # asActionInstances as"
| "asChildren [] = []"
| "asChildren (g # gs) = (fst g, asActionInstances (snd g)) # asChildren gs"

text \<open>
  \<open>host c\<close> says whether \<^verbatim>\<open>moduleHost.getChild(c, true)\<close> returns a connection.
  The calls \<^verbatim>\<open>actionDelete\<close> and \<^verbatim>\<open>actionUpdate\<close> made on it are returned in
  program order; their promises are not awaited, and a rejection is only logged.
\<close>

fun cleanup :: "(string \<Rightarrow> bool) \<Rightarrow> fragment \<Rightarrow> notification list"
  and cleanup_list :: "(string \<Rightarrow> bool) \<Rightarrow> fragment list \<Rightarrow> notification list"
  and cleanup_groups :: "(string \<Rightarrow> bool) \<Rightarrow> (string \<times> fragment list) list \<Rightarrow> notification list"
where
  "cleanup host (Fragment d sc ch) =
     (if host (connectionId d)
      then [ActionDelete (connectionId d) (asActionInstance (Fragment d sc ch))] else [])
     @ cleanup_groups host ch"
| "cleanup_list host [] = []"
| "cleanup_list host (a # as) = cleanup host a @ cleanup_list host as"
| "cleanup_groups host [] = []"
| "cleanup_groups host (g # gs) = cleanup_list host (snd g) @ cleanup_groups host gs"

text \<open>
  The notification \<^verbatim>\<open>subscribe\<close> sends for the node itself, once the node is known to
  be enabled: none unless the filter is absent (or falsy) or names the node's connection,
  none for \<^verbatim>\<open>internal\<close> (the call is commented out in the source), none when the
  connection is not there.
\<close>

definition subscribeSelf ::
  "(string \<Rightarrow> bool) \<Rightarrow> string \<Rightarrow> string option \<Rightarrow> fragment \<Rightarrow> notification list" where
  "subscribeSelf host controlId onlyConnectionId a =
     (if \<not> truthy onlyConnectionId \<or> Some (connectionId (adata a)) = onlyConnectionId then
        (if connectionId (adata a) = ''internal'' then []
         else if host (connectionId (adata a))
              then [ActionUpdate (connectionId (adata a)) (asActionInstance a) controlId]
              else [])
      else [])"

fun subscribe ::
    "(string \<Rightarrow> bool) \<Rightarrow> string \<Rightarrow> bool \<Rightarrow> string option \<Rightarrow> fragment \<Rightarrow> notification list"
  and subscribe_list ::
    "(string \<Rightarrow> bool) \<Rightarrow> string \<Rightarrow> bool \<Rightarrow> string option \<Rightarrow> fragment list \<Rightarrow> notification list"
  and subscribe_groups ::
    "(string \<Rightarrow> bool) \<Rightarrow> string \<Rightarrow> bool \<Rightarrow> string option \<Rightarrow> (string \<times> fragment list) list \<Rightarrow>
       notification list"
where
  "subscribe host controlId recursive onlyConnectionId (Fragment d sc ch) =
     (if disabled d then []
      else subscribeSelf host controlId onlyConnectionId (Fragment d sc ch)
           @ (if recursive then subscribe_groups host controlId recursive onlyConnectionId ch else []))"
| "subscribe_list host controlId recursive onlyConnectionId [] = []"
| "subscribe_list host controlId recursive onlyConnectionId (a # as) =
     subscribe host controlId recursive onlyConnectionId a
     @ subscribe_list host controlId recursive onlyConnectionId as"
| "subscribe_groups host controlId recursive onlyConnectionId [] = []"
| "subscribe_groups host controlId recursive onlyConnectionId (g # gs) =
     subscribe_list host controlId recursive onlyConnectionId (snd g)
     @ subscribe_groups host controlId recursive onlyConnectionId gs"

text \<open>
  \<^verbatim>\<open>setInstance\<close>: clean up, store the new connection id, subscribe for that
  connection. The result is the instance after the call and the notifications sent.
\<close>

definition setInstance ::
  "(string \<Rightarrow> bool) \<Rightarrow> string \<Rightarrow> string \<Rightarrow> fragment \<Rightarrow> fragment \<times> notification list" where
  "setInstance host controlId instanceId a =
     (let removed = cleanup host a;
          a1 = Fragment ((adata a)\<lparr>connectionId := instanceId\<rparr>) (dataChildren a) (children a);
          added = subscribe host controlId True (Some instanceId) a1
      in (a1, removed @ added))"

subsection \<open>Adding and moving children\<close>

text \<open>
  Modelled from the spec: of \<^verbatim>\<open>FragmentActionList\<close> (not among the sources),
  \<^verbatim>\<open>addAction(action)\<close> appends a new instance made from the stored action (not as a
  clone) and returns it, \<^verbatim>\<open>pushAction(action, index)\<close> inserts the given instance at
  the index, and \<^verbatim>\<open>canAcceptAction(action)\<close> is a test on the list and the action that
  changes neither (it is a parameter of \<open>canAcceptChild\<close>).
\<close>

definition addAction ::
  "instance_definitions \<Rightarrow> (nat \<Rightarrow> string) \<Rightarrow> action_instance \<Rightarrow> fragment list \<Rightarrow> nat \<Rightarrow>
     (fragment \<times> fragment list) \<times> nat" where
  "addAction defs nanoid act actions n =
     (case construct defs nanoid False act n of (newAction, n1) \<Rightarrow> ((newAction, actions @ [newAction]), n1))"

definition pushAction :: "fragment \<Rightarrow> nat \<Rightarrow> fragment list \<Rightarrow> fragment list" where
  "pushAction act index actions = take index actions @ act # drop index actions"

definition addChild ::
  "instance_definitions \<Rightarrow> (nat \<Rightarrow> string) \<Rightarrow> string \<Rightarrow> action_instance \<Rightarrow> fragment \<Rightarrow> nat \<Rightarrow>
     ((error + fragment) \<times> fragment) \<times> nat" where
  "addChild defs nanoid groupId act a n =
     (if connectionId (adata a) \<noteq> ''internal'' then ((Inl OnlyInternalActionsCanHaveChildren, a), n)
      else
        (case getOrCreateActionGroup defs groupId a of
           (Inl e, a1) \<Rightarrow> ((Inl e, a1), n)
         | (Inr actionGroup, a1) \<Rightarrow>
             (case addAction defs nanoid act actionGroup n of
                ((newAction, actions), n1) \<Rightarrow> ((Inr newAction, setGroup groupId actions a1), n1))))"

definition pushChild ::
  "instance_definitions \<Rightarrow> fragment \<Rightarrow> string \<Rightarrow> nat \<Rightarrow> fragment \<Rightarrow> (error + unit) \<times> fragment" where
  "pushChild defs act groupId index a =
     (case getOrCreateActionGroup defs groupId a of
        (Inl e, a1) \<Rightarrow> (Inl e, a1)
      | (Inr actionGroup, a1) \<Rightarrow> (Inr (), setGroup groupId (pushAction act index actionGroup) a1))"

definition canAcceptChild ::
  "instance_definitions \<Rightarrow> (fragment list \<Rightarrow> fragment \<Rightarrow> bool) \<Rightarrow> string \<Rightarrow>
     fragment \<Rightarrow> fragment \<Rightarrow> (error + bool) \<times> fragment" where
  "canAcceptChild defs canAcceptAction groupId act a =
     (case getOrCreateActionGroup defs groupId a of
        (Inl e, a1) \<Rightarrow> (Inl e, a1)
      | (Inr actionGroup, a1) \<Rightarrow> (Inr (canAcceptAction actionGroup act), a1))"

subsection \<open>All instances of a tree, and the child-group invariant\<close>

text \<open>
  \<^verbatim>\<open>getAllChildren\<close>: the instances below an instance, at every depth.

  Modelled from the spec: \<^verbatim>\<open>getAllActions\<close> of \<^verbatim>\<open>FragmentActionList\<close> (not among
  the sources) lists each action of the list followed by all its children.
\<close>

fun getAllChildren :: "fragment \<Rightarrow> fragment list"
  and getAllActions :: "fragment list \<Rightarrow> fragment list"
  and getAllOfGroups :: "(string \<times> fragment list) list \<Rightarrow> fragment list"
where
  "getAllChildren (Fragment d sc ch) = getAllOfGroups ch"
| "getAllActions [] = []"
| "getAllActions (a # as) = a # getAllChildren a @ getAllActions as"
| "getAllOfGroups [] = []"
| "getAllOfGroups (g # gs) = getAllActions (snd g) @ getAllOfGroups gs"


text \<open>
  The invariant of one instance: the keys of its children map are distinct (it is a map),
  each is a child group that the instance's definition declares, and there is a key only
  if the connection is \<^verbatim>\<open>internal\<close>.
\<close>

definition groupDeclared :: "instance_definitions \<Rightarrow> fragment \<Rightarrow> string \<Rightarrow> bool" where
  "groupDeclared defs a groupId =
     (case getDefinition defs a of
        None \<Rightarrow> False
      | Some definition \<Rightarrow> groupId \<in> set (supportsChildActionGroups definition))"

definition childrenDeclared :: "instance_definitions \<Rightarrow> fragment \<Rightarrow> bool" where
  "childrenDeclared defs a =
     (distinct (map fst (children a))
      \<and> list_all (groupDeclared defs a) (map fst (children a))
      \<and> (connectionId (adata a) = ''internal'' \<or> children a = []))"

definition childrenDeclaredDeep :: "instance_definitions \<Rightarrow> fragment \<Rightarrow> bool" where
  "childrenDeclaredDeep defs a = list_all (childrenDeclared defs) (a # getAllChildren a)"

text \<open>
  The instances that construction from stored data, \<^verbatim>\<open>addChild\<close>,
  \<^verbatim>\<open>pushChild\<close> and \<^verbatim>\<open>canAcceptChild\<close> can produce, in any order and number,
  whether they succeed or throw. The methods act on an object in place; an object that is
  a child of another changes inside its parent, which the last rule covers: a child may
  be replaced by any instance that the operations can produce.
\<close>

inductive reachable :: "instance_definitions \<Rightarrow> (nat \<Rightarrow> string) \<Rightarrow> fragment \<Rightarrow> bool"
  for defs :: instance_definitions and nanoid :: "nat \<Rightarrow> string"
where
  constructed:
    "construct defs nanoid isCloned stored n = (a, n') \<Longrightarrow> reachable defs nanoid a"
| added:
    "reachable defs nanoid a \<Longrightarrow> addChild defs nanoid groupId stored a n = ((r, a'), n') \<Longrightarrow>
     reachable defs nanoid a'"
| pushed:
    "reachable defs nanoid a \<Longrightarrow> reachable defs nanoid act \<Longrightarrow>
     pushChild defs act groupId index a = (r, a') \<Longrightarrow> reachable defs nanoid a'"
| asked:
    "reachable defs nanoid a \<Longrightarrow> reachable defs nanoid act \<Longrightarrow>
     canAcceptChild defs canAcceptAction groupId act a = (r, a') \<Longrightarrow> reachable defs nanoid a'"
| nested:
    "reachable defs nanoid (Fragment d sc ch) \<Longrightarrow> map_of ch groupId = Some actions \<Longrightarrow>
     index < length actions \<Longrightarrow> reachable defs nanoid a' \<Longrightarrow>
     reachable defs nanoid (Fragment d sc (AList.update groupId (actions[index := a']) ch))"

text \<open>Which call a notification is, and to which connection it goes.\<close>

definition isDelete :: "notification \<Rightarrow> bool" where
  "isDelete e = (case e of ActionDelete c j \<Rightarrow> True | ActionUpdate c j k \<Rightarrow> False)"

definition isUpdateTo :: "string \<Rightarrow> notification \<Rightarrow> bool" where
  "isUpdateTo c e = (case e of ActionDelete c' j \<Rightarrow> False | ActionUpdate c' j k \<Rightarrow> c' = c)"

subsection \<open>The data-model invariant, and stored trees without their ids\<close>







section \<open>Controls controller: registry, location bindings, structural commands\<close>

text \<open>
  The model follows \<^verbatim>\<open>companion/lib/Controls/Controller.ts\<close>. The controller
  object is a record; every handler takes the state and returns its result together
  with the new state. Calls into collaborators that only produce an effect
  (graphics invalidation, notifications to a control, socket broadcasts, the
  persistent store) are appended to a trace, in program order.
\<close>

record location =
  pageNumber :: int
  row :: int
  column :: int

datatype control_type = Button | PageNum | PageUp | PageDown | Trigger

datatype learn_kind = ActionLearn | FeedbackLearn

datatype event =
    InvalidateButton location
  | LocationHasChanged string
  | ControlDestroy string
  | EmberUpdateButtonState location
  | TriggerRedraw string
  | EmitLearnAdd string
  | EmitLearnRemove string
  | LearnCall learn_kind string string
  | LogLearnFailed

text \<open>
  A control of the registry, as far as the controller reads it: its class, the
  capability flags the handlers test, \<^verbatim>\<open>options.sortOrder\<close>, and the action
  instances it owns (the steps and sets that group them are left out). The control's
  own id is the key under which the registry holds it (every control is constructed
  with the id it is then stored under).
\<close>

record 'a control_model =
  ctype :: control_type
  supportsActions :: bool
  supportsFeedbacks :: bool
  supportsOptions :: bool
  sortOrder :: int
  actions :: "'a list"

text \<open>
  A control object owns action instances; its stored form, what \<^verbatim>\<open>toJSON\<close> gives and
  what a control is constructed from, holds stored actions.
\<close>

type_synonym control = "fragment control_model"


text \<open>
  \<^verbatim>\<open>#controls\<close> is a JavaScript \<^verbatim>\<open>Map\<close>: an association list with distinct
  keys in insertion order. \<^verbatim>\<open>#activeLearnRequests\<close> is a \<^verbatim>\<open>Set\<close>.
  \<^verbatim>\<open>pendingLearns\<close> holds the ids of the learn promises that have been started
  and have not settled yet. \<^verbatim>\<open>nanoidCalls\<close> counts the calls of \<^verbatim>\<open>nanoid()\<close>
  made so far: the supply of fresh ids.
\<close>

record controller =
  controls :: "(string \<times> control) list"
  pageMap :: "(location \<times> string) list"
  validPages :: "int set"
  dbControls :: "string set"
  activeLearnRequests :: "string set"
  pendingLearns :: "string list"
  trace :: "event list"
  nanoidCalls :: nat

subsection \<open>The addressing collaborator\<close>

text \<open>
  Modelled from the spec: the page controller (\<^verbatim>\<open>this.page\<close>) is not among the
  sources. The spec gives its interface: \<^verbatim>\<open>getControlIdAt(location)\<close>,
  \<^verbatim>\<open>setControlIdAt(location, id|null)\<close>, \<^verbatim>\<open>isPageValid(page)\<close>,
  \<^verbatim>\<open>getLocationOfControlId(id)\<close>, a map from locations to control ids and back,
  with at most one control id at a location.
\<close>

definition isPageValid :: "controller \<Rightarrow> int \<Rightarrow> bool" where
  "isPageValid s p = (p \<in> validPages s)"

definition getControlIdAt :: "controller \<Rightarrow> location \<Rightarrow> string option" where
  "getControlIdAt s loc = map_of (pageMap s) loc"

definition setControlIdAt :: "location \<Rightarrow> string option \<Rightarrow> controller \<Rightarrow> controller" where
  "setControlIdAt loc v s =
     (case v of
        None \<Rightarrow> s\<lparr>pageMap := AList.delete loc (pageMap s)\<rparr>
      | Some controlId \<Rightarrow> s\<lparr>pageMap := AList.update loc controlId (pageMap s)\<rparr>)"

definition getLocationOfControlId :: "controller \<Rightarrow> string \<Rightarrow> location option" where
  "getLocationOfControlId s controlId =
     map_option fst (find (\<lambda>p. snd p = controlId) (pageMap s))"

subsection \<open>Registry access and deletion\<close>

definition getControl :: "controller \<Rightarrow> string \<Rightarrow> control option" where
  "getControl s controlId = (if controlId = [] then None else map_of (controls s) controlId)"

definition emit :: "event list \<Rightarrow> controller \<Rightarrow> controller" where
  "emit es s = s\<lparr>trace := trace s @ es\<rparr>"

text \<open>
  \<^verbatim>\<open>deleteControl\<close>. The call \<^verbatim>\<open>control.destroy()\<close> (the control classes are not
  among the sources) is an event of the trace, as are the notification of the Ember+
  service and the invalidation of the button; \<^verbatim>\<open>db.deleteTableKey\<close> removes the key
  from the persisted table.
\<close>

definition deleteControl :: "string \<Rightarrow> controller \<Rightarrow> controller" where
  "deleteControl controlId s =
     (let s1 = (case getControl s controlId of
                  Some c \<Rightarrow>
                    (emit [ControlDestroy controlId] s)
                      \<lparr>controls := AList.delete controlId (controls s),
                       dbControls := dbControls s - {controlId}\<rparr>
                | None \<Rightarrow> s)
      in case getLocationOfControlId s1 controlId of
           Some loc \<Rightarrow>
             emit [EmberUpdateButtonState loc, InvalidateButton loc]
               (setControlIdAt loc None s1)
         | None \<Rightarrow> s1)"

subsection \<open>Move and swap\<close>

definition same_location :: "location \<Rightarrow> location \<Rightarrow> bool" where
  "same_location a b =
     (pageNumber a = pageNumber b \<and> column a = column b \<and> row a = row b)"

definition notifyLocationChanged :: "string option \<Rightarrow> controller \<Rightarrow> controller" where
  "notifyLocationChanged v s =
     (case v of
        None \<Rightarrow> s
      | Some controlId \<Rightarrow>
          (case getControl s controlId of
             Some c \<Rightarrow> emit [LocationHasChanged controlId] s
           | None \<Rightarrow> s))"

definition deleteIfBound :: "string option \<Rightarrow> controller \<Rightarrow> controller" where
  "deleteIfBound v s =
     (case v of
        None \<Rightarrow> s
      | Some controlId \<Rightarrow> if controlId \<noteq> [] then deleteControl controlId s else s)"

definition controls_move :: "location \<Rightarrow> location \<Rightarrow> controller \<Rightarrow> bool \<times> controller" where
  "controls_move fromLocation toLocation s =
     (if same_location fromLocation toLocation then (False, s)
      else if \<not> isPageValid s (pageNumber toLocation) then (False, s)
      else
        (let fromControlId = getControlIdAt s fromLocation in
         if \<not> truthy fromControlId then (False, s)
         else
           (let toControlId = getControlIdAt s toLocation;
                s1 = deleteIfBound toControlId s;
                s2 = setControlIdAt fromLocation None s1;
                s3 = setControlIdAt toLocation fromControlId s2;
                s4 = notifyLocationChanged fromControlId s3;
                s5 = emit [InvalidateButton fromLocation, InvalidateButton toLocation] s4
            in (False, s5))))"

definition controls_swap :: "location \<Rightarrow> location \<Rightarrow> controller \<Rightarrow> bool \<times> controller" where
  "controls_swap fromLocation toLocation s =
     (if same_location fromLocation toLocation then (False, s)
      else if \<not> isPageValid s (pageNumber toLocation)
              \<or> \<not> isPageValid s (pageNumber fromLocation) then (False, s)
      else
        (let fromControlId = getControlIdAt s fromLocation;
             toControlId = getControlIdAt s toLocation;
             s1 = setControlIdAt toLocation None s;
             s2 = setControlIdAt fromLocation toControlId s1;
             s3 = setControlIdAt toLocation fromControlId s2;
             s4 = notifyLocationChanged (if truthy fromControlId then fromControlId else None) s3;
             s5 = notifyLocationChanged (if truthy toControlId then toControlId else None) s4;
             s6 = emit [InvalidateButton fromLocation, InvalidateButton toLocation] s5
         in (True, s6)))"

subsection \<open>Copy\<close>







subsection \<open>Learn requests\<close>

definition setIsLearning :: "string \<Rightarrow> bool \<Rightarrow> controller \<Rightarrow> controller" where
  "setIsLearning learnId isActive s =
     (if isActive then
        emit [EmitLearnAdd learnId] (s\<lparr>activeLearnRequests := insert learnId (activeLearnRequests s)\<rparr>)
      else
        emit [EmitLearnRemove learnId] (s\<lparr>activeLearnRequests := activeLearnRequests s - {learnId}\<rparr>))"

definition supportsKind :: "learn_kind \<Rightarrow> control \<Rightarrow> bool" where
  "supportsKind kind c =
     (case kind of ActionLearn \<Rightarrow> supportsActions c | FeedbackLearn \<Rightarrow> supportsFeedbacks c)"

text \<open>
  The handlers \<^verbatim>\<open>controls:action:learn\<close> and \<^verbatim>\<open>controls:feedback:learn\<close> have the
  same body, up to the capability tested and the method called on the control
  (\<^verbatim>\<open>actionLearn\<close>, which also receives the step and set ids, or
  \<^verbatim>\<open>feedbacks.feedbackLearn\<close>); \<open>kind\<close> selects between them. The call on the
  control is an event of the trace. \<open>callThrows\<close> says whether that call throws before
  it returns its promise, which is the case the handler's \<^verbatim>\<open>catch\<close> block serves.
  A throw of the handler is the left summand of the result; the state is returned in
  both cases.
\<close>

definition controls_learn ::
  "learn_kind \<Rightarrow> bool \<Rightarrow> string \<Rightarrow> string \<Rightarrow> controller \<Rightarrow> (error + bool) \<times> controller" where
  "controls_learn kind callThrows controlId learnId s =
     (case getControl s controlId of
        None \<Rightarrow> (Inr False, s)
      | Some c \<Rightarrow>
          if supportsKind kind c then
            (if learnId \<in> activeLearnRequests s then (Inl LearnAlreadyRunning, s)
             else
               (let s1 = setIsLearning learnId True s;
                    s2 = emit [LearnCall kind controlId learnId] s1
                in if callThrows then (Inl LearnCallThrew, setIsLearning learnId False s2)
                   else (Inr True, s2\<lparr>pendingLearns := pendingLearns s2 @ [learnId]\<rparr>)))
          else (Inl (NotSupported controlId), s))"

definition controls_action_learn ::
  "bool \<Rightarrow> string \<Rightarrow> string \<Rightarrow> controller \<Rightarrow> (error + bool) \<times> controller" where
  "controls_action_learn = controls_learn ActionLearn"

definition controls_feedback_learn ::
  "bool \<Rightarrow> string \<Rightarrow> string \<Rightarrow> controller \<Rightarrow> (error + bool) \<times> controller" where
  "controls_feedback_learn = controls_learn FeedbackLearn"

text \<open>
  The promise chain \<^verbatim>\<open>.catch(log).then(() => this.#setIsLearning(id, false))\<close> of a
  started learn runs when the promise settles, fulfilled or rejected. A promise settles
  once: settling consumes the pending entry, and there is nothing to settle (\<open>None\<close>)
  when no learn for the id is pending.
\<close>

definition learn_settled :: "bool \<Rightarrow> string \<Rightarrow> controller \<Rightarrow> controller option" where
  "learn_settled rejected learnId s =
     (if learnId \<in> set (pendingLearns s) then
        (let s1 = (if rejected then emit [LogLearnFailed] s else s);
             s2 = setIsLearning learnId False s1
         in Some (s2\<lparr>pendingLearns := remove1 learnId (pendingLearns s2)\<rparr>))
      else None)"

subsection \<open>Reordering the triggers\<close>

text \<open>
  Modelled from the spec: \<^verbatim>\<open>optionsSetField('sortOrder', value, true)\<close> is a method of
  the trigger control class, which is not among the sources; it stores the value as the
  control's \<^verbatim>\<open>options.sortOrder\<close>.
\<close>

definition optionsSetSortOrder :: "string \<Rightarrow> int \<Rightarrow> controller \<Rightarrow> controller" where
  "optionsSetSortOrder controlId v s =
     s\<lparr>controls := AList.map_entry controlId (\<lambda>c. c\<lparr>sortOrder := v\<rparr>) (controls s)\<rparr>"

definition getAllTriggers :: "controller \<Rightarrow> (string \<times> control) list" where
  "getAllTriggers s = filter (\<lambda>p. ctype (snd p) = Trigger) (controls s)"

definition setListedOrder :: "string \<times> nat \<Rightarrow> controller \<Rightarrow> controller" where
  "setListedOrder p s =
     (case getControl s (fst p) of
        Some c \<Rightarrow> if supportsOptions c then optionsSetSortOrder (fst p) (int (snd p)) s else s
      | None \<Rightarrow> s)"

definition fillUnlisted ::
  "string list \<Rightarrow> string \<times> control \<Rightarrow> int \<times> controller \<Rightarrow> int \<times> controller" where
  "fillUnlisted triggerIds p acc =
     (if fst p \<notin> set triggerIds \<and> supportsOptions (snd p)
      then (fst acc + 1, optionsSetSortOrder (fst p) (fst acc) (snd acc))
      else acc)"

text \<open>
  \<^verbatim>\<open>triggers:set-order\<close>. The validity test of a trigger control id rests on
  \<^verbatim>\<open>ParseControlId\<close>, which is not among the sources, and is a parameter.
  The argument is a list, so the handler's test that it is an array passes.
  \<^verbatim>\<open>Array.prototype.sort\<close> is stable, as \<^const>\<open>sort_key\<close> is.
\<close>

definition triggers_set_order ::
  "(string \<Rightarrow> bool) \<Rightarrow> string list \<Rightarrow> controller \<Rightarrow> bool \<times> controller" where
  "triggers_set_order validateTriggerControlId ids s =
     (let triggerIds = filter validateTriggerControlId ids;
          s1 = fold setListedOrder (zip triggerIds [0..<length triggerIds]) s;
          triggerControls = sort_key (\<lambda>p. sortOrder (snd p)) (getAllTriggers s1);
          s2 = snd (fold (fillUnlisted triggerIds) triggerControls (int (length triggerIds), s1))
      in (True, s2))"

definition sortOrderOf :: "controller \<Rightarrow> string \<Rightarrow> int option" where
  "sortOrderOf s controlId = map_option sortOrder (map_of (controls s) controlId)"

text \<open>
  The triggers that a reorder does not list, in the order in which the handler renumbers
  them: ascending by the sort order they have before the command.
\<close>

definition unlistedTriggers :: "string list \<Rightarrow> controller \<Rightarrow> (string \<times> control) list" where
  "unlistedTriggers triggerIds s =
     filter (\<lambda>p. fst p \<notin> set triggerIds \<and> supportsOptions (snd p))
       (sort_key (\<lambda>p. sortOrder (snd p)) (getAllTriggers s))"

text \<open>What a renumbering leaves alone: the keys, and everything but the sort order.\<close>

definition renumbered :: "string set \<Rightarrow> (string \<times> control) list \<Rightarrow> (string \<times> control) list \<Rightarrow> bool" where
  "renumbered K xs ys =
     list_all2 (\<lambda>p q. fst q = fst p \<and> (fst p \<notin> K \<longrightarrow> q = p)
        \<and> ctype (snd q) = ctype (snd p) \<and> supportsOptions (snd q) = supportsOptions (snd p)) xs ys"

section \<open>Concrete states used by the witnesses\<close>

definition locA :: location where "locA = \<lparr>pageNumber = 1, row = 0, column = 0\<rparr>"
definition locB :: location where "locB = \<lparr>pageNumber = 1, row = 0, column = 1\<rparr>"
definition locC :: location where "locC = \<lparr>pageNumber = 2, row = 3, column = 4\<rparr>"
definition locX :: location where "locX = \<lparr>pageNumber = 99, row = 0, column = 0\<rparr>"

definition button_control :: control where
  "button_control = \<lparr>ctype = Button, supportsActions = True, supportsFeedbacks = True,
     supportsOptions = True, sortOrder = 0, actions = []\<rparr>"

definition example_state :: controller where
  "example_state = \<lparr>controls = [(''bank:a'', button_control), (''bank:c'', button_control)],
     pageMap = [(locA, ''bank:a''), (locC, ''bank:c'')],
     validPages = {1, 2},
     dbControls = {''bank:a'', ''bank:c''},
     activeLearnRequests = {},
     pendingLearns = [],
     trace = [],
     nanoidCalls = 0\<rparr>"

definition ghost_state :: controller where
  "ghost_state = \<lparr>controls = [], pageMap = [(locA, ''bank:ghost'')], validPages = {1},
     dbControls = {}, activeLearnRequests = {}, pendingLearns = [], trace = [],
     nanoidCalls = 0\<rparr>"

definition learning_state :: controller where
  "learning_state = example_state\<lparr>activeLearnRequests := {''f1''}, pendingLearns := [''f1'']\<rparr>"

definition trigger_control :: "int \<Rightarrow> control" where
  "trigger_control n = \<lparr>ctype = Trigger, supportsActions = True, supportsFeedbacks = True,
     supportsOptions = True, sortOrder = n, actions = []\<rparr>"

text \<open>The test of \<^verbatim>\<open>ParseControlId\<close> for a trigger id: the prefix \<^verbatim>\<open>trigger:\<close>.\<close>

definition isTriggerId :: "string \<Rightarrow> bool" where
  "isTriggerId s = (take 8 s = ''trigger:'')"

definition trigger_state :: controller where
  "trigger_state = \<lparr>controls = [(''trigger:a'', trigger_control 5), (''trigger:b'', trigger_control 7),
       (''trigger:c'', trigger_control 2), (''bank:a'', button_control)],
     pageMap = [(locA, ''bank:a'')],
     validPages = {1},
     dbControls = {},
     activeLearnRequests = {},
     pendingLearns = [],
     trace = [],
     nanoidCalls = 0\<rparr>"

text \<open>
  A definition registry with one internal action that has a child group, an id supply,
  a module host with two connections, and a stored internal action with two children.
\<close>

definition ex_defs :: instance_definitions where
  "ex_defs c k =
     (if c = ''internal'' \<and> k = ''action_group'' then Some \<lparr>supportsChildActionGroups = [''default'']\<rparr>
      else if c = ''internal'' \<and> k = ''wait'' then Some \<lparr>supportsChildActionGroups = []\<rparr>
      else None)"

definition ex_nanoid :: "nat \<Rightarrow> string" where
  "ex_nanoid n = replicate (Suc n) (CHR ''n'')"

definition ex_host :: "string \<Rightarrow> bool" where
  "ex_host c = (c = ''conn1'' \<or> c = ''conn2'')"

definition leaf_data :: "string \<Rightarrow> string \<Rightarrow> action_data" where
  "leaf_data i c = \<lparr>ident = i, connectionId = c, action = ''press'',
     options = [(''key'', ''1'')], disabled = False, headline = None, upgradeIndex = None\<rparr>"

definition group_data :: "string \<Rightarrow> action_data" where
  "group_data c = \<lparr>ident = ''g1'', connectionId = c, action = ''action_group'',
     options = [], disabled = False, headline = None, upgradeIndex = None\<rparr>"

text \<open>Stored actions, and the objects the constructor makes of them.\<close>

definition leaf :: "string \<Rightarrow> string \<Rightarrow> action_instance" where
  "leaf i c = ActionInstance (leaf_data i c) []"

definition ex_group :: action_instance where
  "ex_group = ActionInstance (group_data ''internal'')
     [(''default'', [leaf ''c1'' ''conn1'', leaf ''c2'' ''conn2''])]"

definition leaf_fragment :: "string \<Rightarrow> string \<Rightarrow> fragment" where
  "leaf_fragment i c = Fragment (leaf_data i c) [] []"

definition ex_group_fragment :: fragment where
  "ex_group_fragment = Fragment (group_data ''internal'')
     [(''default'', [leaf ''c1'' ''conn1'', leaf ''c2'' ''conn2''])]
     [(''default'', [leaf_fragment ''c1'' ''conn1'', leaf_fragment ''c2'' ''conn2''])]"

text \<open>The example group after \<^verbatim>\<open>setInstance\<close> has given it the connection \<^verbatim>\<open>conn1\<close>.\<close>

definition moved_group_fragment :: fragment where
  "moved_group_fragment = Fragment (group_data ''conn1'')
     [(''default'', [leaf ''c1'' ''conn1'', leaf ''c2'' ''conn2''])]
     [(''default'', [leaf_fragment ''c1'' ''conn1'', leaf_fragment ''c2'' ''conn2''])]"

definition disabled_data :: action_data where
  "disabled_data = \<lparr>ident = ''d1'', connectionId = ''conn1'', action = ''press'',
     options = [(''key'', ''1'')], disabled = True, headline = None, upgradeIndex = None\<rparr>"

definition disabled_leaf :: action_instance where
  "disabled_leaf = ActionInstance disabled_data []"

definition disabled_fragment :: fragment where
  "disabled_fragment = Fragment disabled_data [] []"



section \<open>Basic facts about the state operations\<close>

lemma same_location_iff: "same_location a b \<longleftrightarrow> a = b"
  by (cases a, cases b) (auto simp: same_location_def)

lemma getControlIdAt_setControlIdAt:
  "getControlIdAt (setControlIdAt loc v s) l = (if l = loc then v else getControlIdAt s l)"
  by (cases v) (simp_all add: getControlIdAt_def setControlIdAt_def delete_conv update_conv)

lemma getControlIdAt_emit: "getControlIdAt (emit es s) l = getControlIdAt s l"
  by (simp add: getControlIdAt_def emit_def)

lemma getControlIdAt_notify:
  "getControlIdAt (notifyLocationChanged v s) l = getControlIdAt s l"
  by (simp add: notifyLocationChanged_def getControlIdAt_emit split: option.splits)

lemma validPages_setControlIdAt: "validPages (setControlIdAt loc v s) = validPages s"
  by (cases v) (simp_all add: setControlIdAt_def)

lemma validPages_emit: "validPages (emit es s) = validPages s"
  by (simp add: emit_def)

lemma validPages_notify: "validPages (notifyLocationChanged v s) = validPages s"
  by (simp add: notifyLocationChanged_def validPages_emit split: option.splits)

section \<open>Move, swap and delete\<close>

text \<open>
  Claim C6. \<^verbatim>\<open>controls:move\<close> from a location to itself returns false and leaves
  the whole controller state as it was: no binding changes, the trace gains no
  location-change notification and no invalidation. The same holds when the page of the
  destination is not valid, and when nothing is bound at the source.
\<close>

theorem move_noop:
  "controls_move loc loc s = (False, s)
   \<and> (\<not> isPageValid s (pageNumber toLocation) \<longrightarrow>
        controls_move fromLocation toLocation s = (False, s))
   \<and> (getControlIdAt s fromLocation = None \<longrightarrow>
        controls_move fromLocation toLocation s = (False, s))"
  by (simp add: controls_move_def same_location_iff truthy_def)

theorem move_noop_witness:
  "controls_move locA locA example_state = (False, example_state)
   \<and> \<not> isPageValid example_state (pageNumber locX)
   \<and> controls_move locA locX example_state = (False, example_state)
   \<and> getControlIdAt example_state locB = None
   \<and> controls_move locB locA example_state = (False, example_state)"
proof -
  have v: "\<not> isPageValid example_state (pageNumber locX)"
    by (simp add: isPageValid_def example_state_def locX_def)
  have e: "getControlIdAt example_state locB = None"
    by (simp add: getControlIdAt_def example_state_def locA_def locB_def locC_def)
  from move_noop [of locA example_state locX locA] v
  have 1: "controls_move locA locA example_state = (False, example_state)"
    and 2: "controls_move locA locX example_state = (False, example_state)" by simp_all
  from move_noop [of locA example_state locA locB] e
  have 3: "controls_move locB locA example_state = (False, example_state)" by simp
  from 1 2 3 v e show ?thesis by simp
qed


lemma swap_bindings:
  assumes "\<not> same_location a b" "isPageValid s (pageNumber a)" "isPageValid s (pageNumber b)"
  shows "getControlIdAt (snd (controls_swap a b s)) l =
           (if l = b then getControlIdAt s a
            else if l = a then getControlIdAt s b else getControlIdAt s l)"
  using assms
  by (simp add: controls_swap_def Let_def getControlIdAt_emit getControlIdAt_notify
      getControlIdAt_setControlIdAt)

lemma swap_validPages: "validPages (snd (controls_swap a b s)) = validPages s"
  by (simp add: controls_swap_def Let_def validPages_emit validPages_notify
      validPages_setControlIdAt)

lemma swap_returns:
  "fst (controls_swap a b s) =
     (\<not> same_location a b \<and> isPageValid s (pageNumber a) \<and> isPageValid s (pageNumber b))"
  by (auto simp: controls_swap_def Let_def)

text \<open>
  Claim C5. For two distinct locations on valid pages, \<^verbatim>\<open>controls:swap\<close> runs
  (returns true) both times, and after the second run every location is bound to the
  control id it was bound to at the start, whether or not the two locations were occupied.
\<close>

theorem swap_twice_restores:
  assumes "\<not> same_location a b"
    and "isPageValid s (pageNumber a)" and "isPageValid s (pageNumber b)"
  shows "fst (controls_swap a b s) = True
    \<and> fst (controls_swap a b (snd (controls_swap a b s))) = True
    \<and> (\<forall>loc. getControlIdAt (snd (controls_swap a b (snd (controls_swap a b s)))) loc
           = getControlIdAt s loc)"
proof -
  let ?s1 = "snd (controls_swap a b s)"
  have ne: "a \<noteq> b" using assms(1) by (simp add: same_location_iff)
  have v1: "isPageValid ?s1 (pageNumber a)" "isPageValid ?s1 (pageNumber b)"
    using assms(2,3) by (simp_all add: isPageValid_def swap_validPages)
  have r1: "fst (controls_swap a b s) = True"
    using assms by (simp add: swap_returns)
  have r2: "fst (controls_swap a b ?s1) = True"
    using assms(1) v1 by (simp add: swap_returns)
  have "getControlIdAt (snd (controls_swap a b ?s1)) loc = getControlIdAt s loc" for loc
    using ne by (simp add: swap_bindings [OF assms(1) v1] swap_bindings [OF assms])
  with r1 r2 show ?thesis by simp
qed

theorem swap_twice_restores_witness:
  "fst (controls_swap locA locB example_state) = True
   \<and> getControlIdAt (snd (controls_swap locA locB example_state)) locA = None
   \<and> getControlIdAt (snd (controls_swap locA locB example_state)) locB = Some ''bank:a''
   \<and> getControlIdAt (snd (controls_swap locA locB (snd (controls_swap locA locB example_state)))) locA
       = Some ''bank:a''
   \<and> getControlIdAt (snd (controls_swap locA locB (snd (controls_swap locA locB example_state)))) locB
       = None"
proof -
  have n: "\<not> same_location locA locB"
    by (simp add: same_location_def locA_def locB_def)
  have va: "isPageValid example_state (pageNumber locA)"
    by (simp add: isPageValid_def example_state_def locA_def)
  have vb: "isPageValid example_state (pageNumber locB)"
    by (simp add: isPageValid_def example_state_def locB_def)
  have a: "getControlIdAt example_state locA = Some ''bank:a''"
    by (simp add: getControlIdAt_def example_state_def)
  have b: "getControlIdAt example_state locB = None"
    by (simp add: getControlIdAt_def example_state_def locA_def locB_def locC_def)
  have ne: "locA \<noteq> locB" by (simp add: locA_def locB_def)
  from swap_twice_restores [OF n va vb] swap_bindings [OF n va vb] a b ne
  show ?thesis by simp
qed

text \<open>
  Claim C10. \<^verbatim>\<open>controls:move\<close> returns false on every input. That includes the
  inputs on which the move is carried out: the source is cleared, the destination is bound
  to the moved control id, and the trace ends with the invalidation of both locations.
  \<^verbatim>\<open>controls:swap\<close> on distinct locations of valid pages returns true.
\<close>

theorem move_returns_false:
  "fst (controls_move fromLocation toLocation s) = False
   \<and> (\<not> same_location fromLocation toLocation \<and> isPageValid s (pageNumber toLocation)
        \<and> getControlIdAt s fromLocation = Some cid \<and> cid \<noteq> [] \<longrightarrow>
        getControlIdAt (snd (controls_move fromLocation toLocation s)) fromLocation = None
        \<and> getControlIdAt (snd (controls_move fromLocation toLocation s)) toLocation = Some cid
        \<and> (\<exists>pre. trace (snd (controls_move fromLocation toLocation s))
               = pre @ [InvalidateButton fromLocation, InvalidateButton toLocation]))
   \<and> (\<not> same_location fromLocation toLocation \<and> isPageValid s (pageNumber toLocation)
        \<and> isPageValid s (pageNumber fromLocation) \<longrightarrow>
        fst (controls_swap fromLocation toLocation s) = True)"
proof -
  have 1: "fst (controls_move fromLocation toLocation s) = False"
    by (simp add: controls_move_def Let_def)
  have 2: "getControlIdAt (snd (controls_move fromLocation toLocation s)) fromLocation = None
        \<and> getControlIdAt (snd (controls_move fromLocation toLocation s)) toLocation = Some cid
        \<and> (\<exists>pre. trace (snd (controls_move fromLocation toLocation s))
               = pre @ [InvalidateButton fromLocation, InvalidateButton toLocation])"
    if h: "\<not> same_location fromLocation toLocation" "isPageValid s (pageNumber toLocation)"
      "getControlIdAt s fromLocation = Some cid" "cid \<noteq> []"
  proof -
    have ne: "fromLocation \<noteq> toLocation" using h(1) by (simp add: same_location_iff)
    have b: "getControlIdAt (snd (controls_move fromLocation toLocation s)) fromLocation = None
        \<and> getControlIdAt (snd (controls_move fromLocation toLocation s)) toLocation = Some cid"
      using h ne
      by (simp add: controls_move_def Let_def truthy_def getControlIdAt_emit
          getControlIdAt_notify getControlIdAt_setControlIdAt)
    have t: "\<exists>pre. trace (snd (controls_move fromLocation toLocation s))
               = pre @ [InvalidateButton fromLocation, InvalidateButton toLocation]"
      using h by (simp add: controls_move_def Let_def truthy_def emit_def)
    from b t show ?thesis by simp
  qed
  from 1 2 show ?thesis by (simp add: swap_returns)
qed

theorem move_returns_false_witness:
  "fst (controls_move locA locB example_state) = False
   \<and> getControlIdAt example_state locA = Some ''bank:a''
   \<and> getControlIdAt (snd (controls_move locA locB example_state)) locA = None
   \<and> getControlIdAt (snd (controls_move locA locB example_state)) locB = Some ''bank:a''
   \<and> fst (controls_swap locA locB example_state) = True"
proof -
  have n: "\<not> same_location locA locB"
    by (simp add: same_location_def locA_def locB_def)
  have va: "isPageValid example_state (pageNumber locA)"
    by (simp add: isPageValid_def example_state_def locA_def)
  have vb: "isPageValid example_state (pageNumber locB)"
    by (simp add: isPageValid_def example_state_def locB_def)
  have a: "getControlIdAt example_state locA = Some ''bank:a''"
    by (simp add: getControlIdAt_def example_state_def)
  from move_returns_false [of locA locB example_state "''bank:a''"] n va vb a
  show ?thesis by simp
qed

text \<open>
  Claim C8, as amended. \<^verbatim>\<open>deleteControl\<close> has no error path. For a control id
  that is not in the registry, the registry and the persistent store stay as they are;
  when the id is bound at no location the whole state is unchanged, and when it is still
  bound at a location that binding is cleared and the location invalidated. For a control
  id of the registry, the control is destroyed, its registry and persisted entries are
  removed, and its location (if any) is cleared and invalidated; no other location changes.
\<close>

theorem deleteControl_effect:
  "(getControl s cid = None \<longrightarrow>
      controls (deleteControl cid s) = controls s
      \<and> dbControls (deleteControl cid s) = dbControls s
      \<and> (getLocationOfControlId s cid = None \<longrightarrow> deleteControl cid s = s)
      \<and> (\<forall>loc. getLocationOfControlId s cid = Some loc \<longrightarrow>
            getControlIdAt (deleteControl cid s) loc = None
            \<and> (\<forall>l. l \<noteq> loc \<longrightarrow> getControlIdAt (deleteControl cid s) l = getControlIdAt s l)
            \<and> trace (deleteControl cid s)
                = trace s @ [EmberUpdateButtonState loc, InvalidateButton loc]))
   \<and> (getControl s cid \<noteq> None \<longrightarrow>
      getControl (deleteControl cid s) cid = None
      \<and> cid \<notin> dbControls (deleteControl cid s)
      \<and> (getLocationOfControlId s cid = None \<longrightarrow>
            pageMap (deleteControl cid s) = pageMap s
            \<and> trace (deleteControl cid s) = trace s @ [ControlDestroy cid])
      \<and> (\<forall>loc. getLocationOfControlId s cid = Some loc \<longrightarrow>
            getControlIdAt (deleteControl cid s) loc = None
            \<and> (\<forall>l. l \<noteq> loc \<longrightarrow> getControlIdAt (deleteControl cid s) l = getControlIdAt s l)
            \<and> trace (deleteControl cid s)
                = trace s @ [ControlDestroy cid, EmberUpdateButtonState loc, InvalidateButton loc]))"
  by (auto simp: deleteControl_def Let_def getControl_def getLocationOfControlId_def emit_def
      getControlIdAt_def setControlIdAt_def delete_conv split: option.splits if_splits)

text \<open>
  Claim C8 as stated fails: a control id absent from the registry but still bound at a
  location is unbound by \<^verbatim>\<open>deleteControl\<close>, and the location is invalidated.
\<close>

theorem deleteControl_absent_counterexample:
  "getControl ghost_state ''bank:ghost'' = None
   \<and> getControlIdAt ghost_state locA = Some ''bank:ghost''
   \<and> getControlIdAt (deleteControl ''bank:ghost'' ghost_state) locA = None
   \<and> trace ghost_state = []
   \<and> trace (deleteControl ''bank:ghost'' ghost_state)
       = [EmberUpdateButtonState locA, InvalidateButton locA]"
  by (simp add: ghost_state_def getControl_def getControlIdAt_def deleteControl_def
      getLocationOfControlId_def setControlIdAt_def emit_def)

theorem deleteControl_effect_witness:
  "getControl example_state ''bank:zzz'' = None
   \<and> deleteControl ''bank:zzz'' example_state = example_state
   \<and> getControl example_state ''bank:a'' \<noteq> None
   \<and> getControl (deleteControl ''bank:a'' example_state) ''bank:a'' = None
   \<and> getControlIdAt (deleteControl ''bank:a'' example_state) locA = None
   \<and> trace (deleteControl ''bank:a'' example_state)
       = [ControlDestroy ''bank:a'', EmberUpdateButtonState locA, InvalidateButton locA]"
proof -
  have 1: "getControl example_state ''bank:zzz'' = None"
    by (simp add: getControl_def example_state_def)
  have 2: "getLocationOfControlId example_state ''bank:zzz'' = None"
    by (simp add: getLocationOfControlId_def example_state_def)
  have 3: "getControl example_state ''bank:a'' \<noteq> None"
    by (simp add: getControl_def example_state_def)
  have 4: "getLocationOfControlId example_state ''bank:a'' = Some locA"
    by (simp add: getLocationOfControlId_def example_state_def)
  have 5: "trace example_state = []" by (simp add: example_state_def)
  from deleteControl_effect [of example_state "''bank:zzz''"] 1 2
  have a: "deleteControl ''bank:zzz'' example_state = example_state" by simp
  from deleteControl_effect [of example_state "''bank:a''"] 3 4 5
  have b: "getControl (deleteControl ''bank:a'' example_state) ''bank:a'' = None
   \<and> getControlIdAt (deleteControl ''bank:a'' example_state) locA = None
   \<and> trace (deleteControl ''bank:a'' example_state)
       = [ControlDestroy ''bank:a'', EmberUpdateButtonState locA, InvalidateButton locA]"
    by simp
  from 1 3 a b show ?thesis by simp
qed

section \<open>Learn requests\<close>

lemma learn_running_unchanged:
  "learnId \<in> activeLearnRequests s \<Longrightarrow> snd (controls_learn kind ct cid learnId s) = s"
  by (simp add: controls_learn_def split: option.splits)

lemma learn_running_result:
  "learnId \<in> activeLearnRequests s \<Longrightarrow> getControl s cid = Some c \<Longrightarrow>
   fst (controls_learn kind ct cid learnId s) =
     (if supportsKind kind c then Inl LearnAlreadyRunning else Inl (NotSupported cid))"
  by (simp add: controls_learn_def)

lemma learn_start:
  assumes "getControl s cid = Some c" "supportsKind kind c" "learnId \<notin> activeLearnRequests s"
  shows "controls_learn kind False cid learnId s =
     (Inr True, s\<lparr>activeLearnRequests := insert learnId (activeLearnRequests s),
                  trace := trace s @ [EmitLearnAdd learnId, LearnCall kind cid learnId],
                  pendingLearns := pendingLearns s @ [learnId]\<rparr>)"
  using assms by (simp add: controls_learn_def Let_def setIsLearning_def emit_def)

lemma learn_settled_after_start:
  assumes "learnId \<notin> activeLearnRequests s" "learnId \<notin> set (pendingLearns s)"
  shows "learn_settled rejected learnId
           (s\<lparr>activeLearnRequests := insert learnId (activeLearnRequests s),
              trace := trace s @ [EmitLearnAdd learnId, LearnCall kind cid learnId],
              pendingLearns := pendingLearns s @ [learnId]\<rparr>) =
         Some (s\<lparr>trace := trace s @ [EmitLearnAdd learnId, LearnCall kind cid learnId]
                     @ (if rejected then [LogLearnFailed] else []) @ [EmitLearnRemove learnId]\<rparr>)"
  using assms
  by (simp add: learn_settled_def Let_def setIsLearning_def emit_def remove1_append)

text \<open>
  Claim C2. Let the command address a control of the registry that has the capability.
  While a learn for an id is in the active set, a further learn command for that id
  throws "Learn is already running" and returns the state as it was: the active set is
  unchanged and the trace has no further learn call. Otherwise the command adds the id,
  broadcasts the addition, calls the learn on the control and returns true; a second
  command issued while the first is in flight throws as above; and when the promise
  settles, by fulfilment or by rejection, the id is removed and the removal broadcast,
  once: after it nothing for the id is left to settle. When instead the call on the
  control throws before it returns a promise, the handler's \<^verbatim>\<open>catch\<close> block removes the
  id and broadcasts the removal, once, and rethrows: the state is the one before the
  command but for the three events of the trace, and nothing is pending.
\<close>

theorem learn_mutual_exclusion:
  assumes c: "getControl s cid = Some c" and k: "supportsKind kind c"
    and inv: "set (pendingLearns s) \<subseteq> activeLearnRequests s"
  shows "(learnId \<in> activeLearnRequests s \<longrightarrow>
            controls_learn kind callThrows cid learnId s = (Inl LearnAlreadyRunning, s))
    \<and> (learnId \<notin> activeLearnRequests s \<longrightarrow>
         (\<exists>s1. controls_learn kind False cid learnId s = (Inr True, s1)
            \<and> activeLearnRequests s1 = insert learnId (activeLearnRequests s)
            \<and> trace s1 = trace s @ [EmitLearnAdd learnId, LearnCall kind cid learnId]
            \<and> controls_learn kind callThrows cid learnId s1 = (Inl LearnAlreadyRunning, s1)
            \<and> (\<forall>rejected. \<exists>s2. learn_settled rejected learnId s1 = Some s2
                  \<and> activeLearnRequests s2 = activeLearnRequests s
                  \<and> trace s2 = trace s1 @ (if rejected then [LogLearnFailed] else [])
                                 @ [EmitLearnRemove learnId]
                  \<and> learn_settled rejected learnId s2 = None)))
    \<and> (learnId \<notin> activeLearnRequests s \<longrightarrow>
         controls_learn kind True cid learnId s =
           (Inl LearnCallThrew,
            s\<lparr>trace := trace s @ [EmitLearnAdd learnId, LearnCall kind cid learnId,
                                    EmitLearnRemove learnId]\<rparr>))"
proof (intro conjI impI)
  assume "learnId \<in> activeLearnRequests s"
  with c k show "controls_learn kind callThrows cid learnId s = (Inl LearnAlreadyRunning, s)"
    by (simp add: controls_learn_def)
next
  assume n: "learnId \<notin> activeLearnRequests s"
  with inv have p: "learnId \<notin> set (pendingLearns s)" by auto
  let ?s1 = "s\<lparr>activeLearnRequests := insert learnId (activeLearnRequests s),
                  trace := trace s @ [EmitLearnAdd learnId, LearnCall kind cid learnId],
                  pendingLearns := pendingLearns s @ [learnId]\<rparr>"
  have st: "controls_learn kind False cid learnId s = (Inr True, ?s1)"
    by (rule learn_start [OF c k n])
  have c1: "getControl ?s1 cid = Some c" using c by (simp add: getControl_def split: if_splits)
  have again: "controls_learn kind callThrows cid learnId ?s1 = (Inl LearnAlreadyRunning, ?s1)"
    using c1 k by (simp add: controls_learn_def)
  have settle: "\<exists>s2. learn_settled rejected learnId ?s1 = Some s2
                  \<and> activeLearnRequests s2 = activeLearnRequests s
                  \<and> trace s2 = trace ?s1 @ (if rejected then [LogLearnFailed] else [])
                                 @ [EmitLearnRemove learnId]
                  \<and> learn_settled rejected learnId s2 = None" for rejected
  proof -
    let ?s2 = "s\<lparr>trace := trace s @ [EmitLearnAdd learnId, LearnCall kind cid learnId]
                     @ (if rejected then [LogLearnFailed] else []) @ [EmitLearnRemove learnId]\<rparr>"
    have a: "learn_settled rejected learnId ?s1 = Some ?s2"
      by (rule learn_settled_after_start [OF n p])
    have b: "learn_settled rejected learnId ?s2 = None"
      using p by (simp add: learn_settled_def)
    from a b show ?thesis by simp
  qed
  from st again settle
  show "\<exists>s1. controls_learn kind False cid learnId s = (Inr True, s1)
            \<and> activeLearnRequests s1 = insert learnId (activeLearnRequests s)
            \<and> trace s1 = trace s @ [EmitLearnAdd learnId, LearnCall kind cid learnId]
            \<and> controls_learn kind callThrows cid learnId s1 = (Inl LearnAlreadyRunning, s1)
            \<and> (\<forall>rejected. \<exists>s2. learn_settled rejected learnId s1 = Some s2
                  \<and> activeLearnRequests s2 = activeLearnRequests s
                  \<and> trace s2 = trace s1 @ (if rejected then [LogLearnFailed] else [])
                                 @ [EmitLearnRemove learnId]
                  \<and> learn_settled rejected learnId s2 = None)"
    by (intro exI [of _ ?s1]) simp
next
  assume n: "learnId \<notin> activeLearnRequests s"
  then have "insert learnId (activeLearnRequests s) - {learnId} = activeLearnRequests s" by auto
  with c k n show "controls_learn kind True cid learnId s =
           (Inl LearnCallThrew,
            s\<lparr>trace := trace s @ [EmitLearnAdd learnId, LearnCall kind cid learnId,
                                    EmitLearnRemove learnId]\<rparr>)"
    by (simp add: controls_learn_def Let_def setIsLearning_def emit_def)
qed

theorem learn_mutual_exclusion_witness:
  "controls_learn FeedbackLearn False ''bank:a'' ''f1'' learning_state
     = (Inl LearnAlreadyRunning, learning_state)
   \<and> fst (controls_learn FeedbackLearn False ''bank:a'' ''f1'' example_state) = Inr True
   \<and> trace (snd (controls_learn FeedbackLearn False ''bank:a'' ''f1'' example_state))
       = [EmitLearnAdd ''f1'', LearnCall FeedbackLearn ''bank:a'' ''f1'']
   \<and> fst (controls_learn FeedbackLearn True ''bank:a'' ''f1'' example_state) = Inl LearnCallThrew
   \<and> activeLearnRequests (snd (controls_learn FeedbackLearn True ''bank:a'' ''f1'' example_state)) = {}
   \<and> trace (snd (controls_learn FeedbackLearn True ''bank:a'' ''f1'' example_state))
       = [EmitLearnAdd ''f1'', LearnCall FeedbackLearn ''bank:a'' ''f1'', EmitLearnRemove ''f1'']"
proof -
  have c: "getControl learning_state ''bank:a'' = Some button_control"
    by (simp add: learning_state_def example_state_def getControl_def)
  have c': "getControl example_state ''bank:a'' = Some button_control"
    by (simp add: example_state_def getControl_def)
  have k: "supportsKind FeedbackLearn button_control"
    by (simp add: supportsKind_def button_control_def)
  have i: "set (pendingLearns learning_state) \<subseteq> activeLearnRequests learning_state"
    by (simp add: learning_state_def)
  have i': "set (pendingLearns example_state) \<subseteq> activeLearnRequests example_state"
    by (simp add: example_state_def)
  have a: "''f1'' \<in> activeLearnRequests learning_state" by (simp add: learning_state_def)
  have a': "''f1'' \<notin> activeLearnRequests example_state" by (simp add: example_state_def)
  have t: "trace example_state = []" by (simp add: example_state_def)
  from learn_mutual_exclusion [OF c k i, of "''f1''" False] a
  have 1: "controls_learn FeedbackLearn False ''bank:a'' ''f1'' learning_state
     = (Inl LearnAlreadyRunning, learning_state)" by simp
  from learn_mutual_exclusion [OF c' k i', of "''f1''" False] a' t
  have 2: "fst (controls_learn FeedbackLearn False ''bank:a'' ''f1'' example_state) = Inr True
   \<and> trace (snd (controls_learn FeedbackLearn False ''bank:a'' ''f1'' example_state))
       = [EmitLearnAdd ''f1'', LearnCall FeedbackLearn ''bank:a'' ''f1'']"
    by auto
  have e: "activeLearnRequests example_state = {}" by (simp add: example_state_def)
  from learn_mutual_exclusion [OF c' k i', of "''f1''" False] a'
  have "controls_learn FeedbackLearn True ''bank:a'' ''f1'' example_state =
      (Inl LearnCallThrew,
       example_state\<lparr>trace := trace example_state @ [EmitLearnAdd ''f1'',
           LearnCall FeedbackLearn ''bank:a'' ''f1'', EmitLearnRemove ''f1'']\<rparr>)" by blast
  with t e have 3: "fst (controls_learn FeedbackLearn True ''bank:a'' ''f1'' example_state)
        = Inl LearnCallThrew
   \<and> activeLearnRequests (snd (controls_learn FeedbackLearn True ''bank:a'' ''f1'' example_state)) = {}
   \<and> trace (snd (controls_learn FeedbackLearn True ''bank:a'' ''f1'' example_state))
       = [EmitLearnAdd ''f1'', LearnCall FeedbackLearn ''bank:a'' ''f1'', EmitLearnRemove ''f1'']"
    by simp
  from 1 2 3 show ?thesis by simp
qed

section \<open>Reordering the triggers\<close>

lemma map_of_optionsSetSortOrder:
  "map_of (controls (optionsSetSortOrder k v s)) k' =
     (if k' = k then map_option (\<lambda>c. c\<lparr>sortOrder := v\<rparr>) (map_of (controls s) k)
      else map_of (controls s) k')"
  by (simp add: optionsSetSortOrder_def map_of_map_entry split: option.splits)

lemma renumbered_refl: "renumbered K xs xs"
  by (simp add: renumbered_def list_all2_same)

lemma renumbered_trans:
  assumes "renumbered K xs ys" and "renumbered K ys zs"
  shows "renumbered K xs zs"
  unfolding renumbered_def
  by (rule list_all2_trans [OF _ assms(1) [unfolded renumbered_def] assms(2) [unfolded renumbered_def]])
    auto

lemma renumbered_map_entry:
  "k \<in> K \<Longrightarrow> renumbered K xs (AList.map_entry k (\<lambda>c. c\<lparr>sortOrder := v\<rparr>) xs)"
  by (induction xs) (auto simp: renumbered_def list_all2_same)

lemma renumbered_setListedOrder:
  "fst p \<in> K \<Longrightarrow> renumbered K (controls s) (controls (setListedOrder p s))"
  by (simp add: setListedOrder_def optionsSetSortOrder_def renumbered_map_entry renumbered_refl
      split: option.splits)

lemma renumbered_fold:
  "fst ` set ps \<subseteq> K \<Longrightarrow> renumbered K (controls s) (controls (fold setListedOrder ps s))"
proof (induction ps arbitrary: s)
  case Nil
  show ?case by (simp add: renumbered_refl)
next
  case (Cons p ps)
  have "renumbered K (controls s) (controls (setListedOrder p s))"
    using Cons.prems by (simp add: renumbered_setListedOrder)
  moreover have "renumbered K (controls (setListedOrder p s))
      (controls (fold setListedOrder ps (setListedOrder p s)))"
    using Cons.prems by (intro Cons.IH) simp
  ultimately show ?case by (simp add: renumbered_trans)
qed

lemma renumbered_filter:
  assumes "renumbered K xs ys" and "\<And>p. Q p \<Longrightarrow> fst p \<notin> K"
    and "\<And>p q. fst q = fst p \<Longrightarrow> ctype (snd q) = ctype (snd p) \<Longrightarrow>
           supportsOptions (snd q) = supportsOptions (snd p) \<Longrightarrow> Q q = Q p"
  shows "filter Q ys = filter Q xs"
  using assms(1) unfolding renumbered_def
proof (induction rule: list_all2_induct)
  case Nil
  show ?case by simp
next
  case (Cons p ps q qs)
  have "Q q = Q p" using Cons.hyps by (intro assms(3)) simp_all
  moreover have "Q p \<Longrightarrow> q = p" using Cons.hyps assms(2) by blast
  ultimately show ?case using Cons.IH by auto
qed

lemma renumbered_keys: "renumbered K xs ys \<Longrightarrow> map fst ys = map fst xs"
  unfolding renumbered_def by (induction rule: list_all2_induct) simp_all

lemma unlisted_after_first_pass:
  assumes "fst ` set ps \<subseteq> set v"
  shows "unlistedTriggers v (fold setListedOrder ps s) = unlistedTriggers v s"
proof -
  let ?Q = "\<lambda>p. ctype (snd p) = Trigger \<and> fst p \<notin> set v \<and> supportsOptions (snd p)"
  have r: "renumbered (set v) (controls s) (controls (fold setListedOrder ps s))"
    by (rule renumbered_fold [OF assms])
  have "filter ?Q (controls (fold setListedOrder ps s)) = filter ?Q (controls s)"
    by (rule renumbered_filter [OF r]) auto
  then show ?thesis
    by (simp add: unlistedTriggers_def getAllTriggers_def filter_sort)
qed


lemma map_of_setListedOrder_other:
  "k \<noteq> fst p \<Longrightarrow> map_of (controls (setListedOrder p s)) k = map_of (controls s) k"
  by (simp add: setListedOrder_def map_of_optionsSetSortOrder split: option.splits)

lemma map_of_fold_other:
  "k \<notin> fst ` set ps \<Longrightarrow> map_of (controls (fold setListedOrder ps s)) k = map_of (controls s) k"
  by (induction ps arbitrary: s) (auto simp: map_of_setListedOrder_other)

lemma supportsOptions_setListedOrder:
  "map_option supportsOptions (map_of (controls (setListedOrder p s)) k)
     = map_option supportsOptions (map_of (controls s) k)"
  by (cases "map_of (controls s) (fst p)")
    (auto simp: setListedOrder_def map_of_optionsSetSortOrder split: option.splits)

lemma supportsOptions_fold:
  "map_option supportsOptions (map_of (controls (fold setListedOrder ps s)) k)
     = map_option supportsOptions (map_of (controls s) k)"
  by (induction ps arbitrary: s) (simp_all add: supportsOptions_setListedOrder)

lemma setListedOrder_value:
  assumes "k \<noteq> []" and "map_option supportsOptions (map_of (controls s) k) = Some True"
  shows "sortOrderOf (setListedOrder (k, i) s) k = Some (int i)"
  using assms
  by (auto simp: setListedOrder_def getControl_def sortOrderOf_def map_of_optionsSetSortOrder)

lemma first_pass_value:
  assumes i: "i < length v" and last: "v ! i \<notin> set (drop (Suc i) v)"
    and c: "getControl s (v ! i) = Some c" and so: "supportsOptions c"
  shows "sortOrderOf (fold setListedOrder (zip v [0..<length v]) s) (v ! i) = Some (int i)"
proof -
  let ?ps = "zip v [0..<length v]"
  let ?sa = "fold setListedOrder (take i ?ps) s"
  have len: "i < length ?ps" using i by simp
  have nth: "?ps ! i = (v ! i, i)" using i by simp
  have split: "?ps = take i ?ps @ (v ! i, i) # drop (Suc i) ?ps"
    using id_take_nth_drop [OF len] nth by simp
  have ne: "v ! i \<noteq> []" using c by (auto simp: getControl_def split: if_splits)
  have "map_of (controls s) (v ! i) = Some c"
    using c by (auto simp: getControl_def split: if_splits)
  then have "map_option supportsOptions (map_of (controls ?sa) (v ! i)) = Some True"
    using so by (simp add: supportsOptions_fold)
  then have val: "sortOrderOf (setListedOrder (v ! i, i) ?sa) (v ! i) = Some (int i)"
    by (rule setListedOrder_value [OF ne])
  have "fst ` set (drop (Suc i) ?ps) \<subseteq> set (drop (Suc i) v)"
    by (auto simp: drop_zip dest: set_zip_leftD)
  then have rest: "v ! i \<notin> fst ` set (drop (Suc i) ?ps)" using last by blast
  have "fold setListedOrder ?ps s
      = fold setListedOrder (drop (Suc i) ?ps) (setListedOrder (v ! i, i) ?sa)"
    by (subst split) simp
  then show ?thesis
    using val by (simp add: sortOrderOf_def map_of_fold_other [OF rest])
qed

lemma fill_fold:
  assumes "distinct (map fst L)" and "\<forall>p\<in>set L. map_of (controls st) (fst p) \<noteq> None"
  shows "fst (fold (fillUnlisted v) L (n, st))
           = n + int (length (filter (\<lambda>p. fst p \<notin> set v \<and> supportsOptions (snd p)) L))
    \<and> (\<forall>j < length (filter (\<lambda>p. fst p \<notin> set v \<and> supportsOptions (snd p)) L).
          sortOrderOf (snd (fold (fillUnlisted v) L (n, st)))
            (fst (filter (\<lambda>p. fst p \<notin> set v \<and> supportsOptions (snd p)) L ! j)) = Some (n + int j))
    \<and> (\<forall>k. k \<notin> fst ` set (filter (\<lambda>p. fst p \<notin> set v \<and> supportsOptions (snd p)) L) \<longrightarrow>
          map_of (controls (snd (fold (fillUnlisted v) L (n, st)))) k = map_of (controls st) k)"
  using assms
proof (induction L arbitrary: n st)
  case Nil
  show ?case by simp
next
  case (Cons p L)
  let ?Q = "\<lambda>p. fst p \<notin> set v \<and> supportsOptions (snd p)"
  show ?case
  proof (cases "?Q p")
    case False
    then have step: "fillUnlisted v p (n, st) = (n, st)" by (simp add: fillUnlisted_def)
    from Cons.IH [of st n] Cons.prems False step show ?thesis by simp
  next
    case True
    let ?st = "optionsSetSortOrder (fst p) n st"
    have step: "fillUnlisted v p (n, st) = (n + 1, ?st)"
      using True by (simp add: fillUnlisted_def)
    have d: "distinct (map fst L)" and notin: "fst p \<notin> fst ` set L"
      using Cons.prems(1) by simp_all
    have dom: "\<forall>q\<in>set L. map_of (controls ?st) (fst q) \<noteq> None"
      using Cons.prems(2) by (auto simp: map_of_optionsSetSortOrder)
    note IH = Cons.IH [OF d dom, of "n + 1"]
    have here: "sortOrderOf (snd (fold (fillUnlisted v) L (n + 1, ?st))) (fst p) = Some n"
    proof -
      have "fst p \<notin> fst ` set (filter ?Q L)" using notin by auto
      with IH have "map_of (controls (snd (fold (fillUnlisted v) L (n + 1, ?st)))) (fst p)
          = map_of (controls ?st) (fst p)" by blast
      moreover have "map_of (controls st) (fst p) \<noteq> None" using Cons.prems(2) by simp
      ultimately show ?thesis
        by (auto simp: sortOrderOf_def map_of_optionsSetSortOrder)
    qed
    have 1: "fst (fold (fillUnlisted v) (p # L) (n, st)) = n + int (length (filter ?Q (p # L)))"
      using IH True step by simp
    have 2: "sortOrderOf (snd (fold (fillUnlisted v) (p # L) (n, st))) (fst (filter ?Q (p # L) ! j))
          = Some (n + int j)" if "j < length (filter ?Q (p # L))" for j
    proof (cases j)
      case 0
      with here True step show ?thesis by simp
    next
      case (Suc j')
      with that True have "j' < length (filter ?Q L)" by simp
      with IH have "sortOrderOf (snd (fold (fillUnlisted v) L (n + 1, ?st))) (fst (filter ?Q L ! j'))
          = Some (n + 1 + int j')" by blast
      with Suc True step show ?thesis by simp
    qed
    have 3: "map_of (controls (snd (fold (fillUnlisted v) (p # L) (n, st)))) k = map_of (controls st) k"
      if "k \<notin> fst ` set (filter ?Q (p # L))" for k
    proof -
      from that True have k: "k \<noteq> fst p" "k \<notin> fst ` set (filter ?Q L)" by auto
      with IH have "map_of (controls (snd (fold (fillUnlisted v) L (n + 1, ?st)))) k
          = map_of (controls ?st) k" by blast
      with k(1) step show ?thesis by (simp add: map_of_optionsSetSortOrder)
    qed
    from 1 2 3 show ?thesis by blast
  qed
qed


lemma second_pass:
  assumes d: "distinct (map fst (controls s1))"
  shows "(\<forall>j < length (unlistedTriggers v s1).
            sortOrderOf (snd (fold (fillUnlisted v) (sort_key (\<lambda>p. sortOrder (snd p)) (getAllTriggers s1))
                (n, s1))) (fst (unlistedTriggers v s1 ! j)) = Some (n + int j))
    \<and> (\<forall>k\<in>set v. map_of (controls (snd (fold (fillUnlisted v)
                (sort_key (\<lambda>p. sortOrder (snd p)) (getAllTriggers s1)) (n, s1)))) k
            = map_of (controls s1) k)"
proof -
  let ?L = "sort_key (\<lambda>p. sortOrder (snd p)) (getAllTriggers s1)"
  have sub: "set ?L \<subseteq> set (controls s1)" by (auto simp: getAllTriggers_def)
  have "distinct (map fst (getAllTriggers s1))"
    using d by (simp add: getAllTriggers_def distinct_map_filter)
  then have dL: "distinct (map fst ?L)" by (simp add: distinct_map)
  have dom: "\<forall>p\<in>set ?L. map_of (controls s1) (fst p) \<noteq> None"
    using sub by (auto simp: map_of_eq_None_iff)
  note F = fill_fold [OF dL dom, of v n]
  have U: "filter (\<lambda>p. fst p \<notin> set v \<and> supportsOptions (snd p)) ?L = unlistedTriggers v s1"
    by (simp add: unlistedTriggers_def)
  have "k \<notin> fst ` set (unlistedTriggers v s1)" if "k \<in> set v" for k
    using that by (auto simp: unlistedTriggers_def)
  with F show ?thesis unfolding U by blast
qed

text \<open>
  The general form: the handler numbers within the list that is left once the ids that
  are not valid trigger ids are dropped.
\<close>

lemma set_order_filtered:
  assumes d: "distinct (map fst (controls s))"
  shows "fst (triggers_set_order valid ids s) = True
    \<and> (\<forall>i < length (filter valid ids). \<forall>c.
          filter valid ids ! i \<notin> set (drop (Suc i) (filter valid ids))
          \<and> getControl s (filter valid ids ! i) = Some c \<and> supportsOptions c \<longrightarrow>
          sortOrderOf (snd (triggers_set_order valid ids s)) (filter valid ids ! i) = Some (int i))
    \<and> (\<forall>j < length (unlistedTriggers (filter valid ids) s).
          sortOrderOf (snd (triggers_set_order valid ids s))
            (fst (unlistedTriggers (filter valid ids) s ! j))
          = Some (int (length (filter valid ids)) + int j))"
proof -
  let ?v = "filter valid ids"
  let ?ps = "zip ?v [0..<length ?v]"
  let ?s1 = "fold setListedOrder ?ps s"
  let ?s2 = "snd (fold (fillUnlisted ?v) (sort_key (\<lambda>p. sortOrder (snd p)) (getAllTriggers ?s1))
                (int (length ?v), ?s1))"
  have res: "triggers_set_order valid ids s = (True, ?s2)"
    by (simp add: triggers_set_order_def Let_def)
  have keys: "fst ` set ?ps \<subseteq> set ?v" by (auto dest: set_zip_leftD)
  have "renumbered (set ?v) (controls s) (controls ?s1)" by (rule renumbered_fold [OF keys])
  then have d1: "distinct (map fst (controls ?s1))" using d by (simp add: renumbered_keys)
  note S = second_pass [OF d1, of ?v "int (length ?v)"]
  have U: "unlistedTriggers ?v ?s1 = unlistedTriggers ?v s"
    by (rule unlisted_after_first_pass [OF keys])
  have listed: "sortOrderOf ?s2 (?v ! i) = Some (int i)"
    if "i < length ?v" "?v ! i \<notin> set (drop (Suc i) ?v)" "getControl s (?v ! i) = Some c"
      "supportsOptions c" for i c
  proof -
    have "?v ! i \<in> set ?v" using that(1) by (rule nth_mem)
    with S have "map_of (controls ?s2) (?v ! i) = map_of (controls ?s1) (?v ! i)" by blast
    then have "sortOrderOf ?s2 (?v ! i) = sortOrderOf ?s1 (?v ! i)" by (simp add: sortOrderOf_def)
    also have "\<dots> = Some (int i)" by (rule first_pass_value [OF that])
    finally show ?thesis .
  qed
  have unlisted: "sortOrderOf ?s2 (fst (unlistedTriggers ?v s ! j)) = Some (int (length ?v) + int j)"
    if "j < length (unlistedTriggers ?v s)" for j
    using S that unfolding U by blast
  from listed unlisted show ?thesis unfolding res by auto
qed

lemma occurrence_value:
  assumes i: "i < length v" and c: "getControl s (v ! i) = Some c" and so: "supportsOptions c"
  shows "sortOrderOf (fold setListedOrder (take (Suc i) (zip v [0..<length v])) s) (v ! i)
           = Some (int i)"
proof -
  let ?ps = "zip v [0..<length v]"
  let ?sa = "fold setListedOrder (take i ?ps) s"
  have len: "i < length ?ps" using i by simp
  have nth: "?ps ! i = (v ! i, i)" using i by simp
  have ne: "v ! i \<noteq> []" using c by (auto simp: getControl_def split: if_splits)
  have "map_of (controls s) (v ! i) = Some c"
    using c by (auto simp: getControl_def split: if_splits)
  then have "map_option supportsOptions (map_of (controls ?sa) (v ! i)) = Some True"
    using so by (simp add: supportsOptions_fold)
  then have "sortOrderOf (setListedOrder (v ! i, i) ?sa) (v ! i) = Some (int i)"
    by (rule setListedOrder_value [OF ne])
  then show ?thesis by (simp add: take_Suc_conv_app_nth [OF len] nth)
qed

text \<open>
  Claim C9. Let \<^verbatim>\<open>triggers:set-order\<close> be called with a list of valid trigger ids,
  on a registry (a map: its keys are distinct). Each listed id that names a control with
  options is assigned its index in the list: the control has that sort order right after
  the step of the first loop that handles this entry, and it has it when the command
  returns, too, unless the id is listed again later (the later entry then assigns its own
  index). Every trigger that is not in the list is then given consecutive sort orders
  from the length of the list on, in ascending order of the sort orders the triggers had
  before (ties in registry order). The command returns true.
\<close>

theorem set_order_renumbers:
  assumes d: "distinct (map fst (controls s))" and v: "\<forall>t\<in>set ids. valid t"
  shows "fst (triggers_set_order valid ids s) = True
    \<and> (\<forall>i < length ids. \<forall>c. getControl s (ids ! i) = Some c \<and> supportsOptions c \<longrightarrow>
          sortOrderOf (fold setListedOrder (take (Suc i) (zip ids [0..<length ids])) s) (ids ! i)
            = Some (int i)
          \<and> (ids ! i \<notin> set (drop (Suc i) ids) \<longrightarrow>
               sortOrderOf (snd (triggers_set_order valid ids s)) (ids ! i) = Some (int i)))
    \<and> (\<forall>j < length (unlistedTriggers ids s).
          sortOrderOf (snd (triggers_set_order valid ids s)) (fst (unlistedTriggers ids s ! j))
          = Some (int (length ids) + int j))"
proof -
  have f: "filter valid ids = ids" using v by (simp add: filter_id_conv)
  note F = set_order_filtered [OF d, of valid ids, unfolded f]
  have 1: "fst (triggers_set_order valid ids s) = True" using F by blast
  have 2: "sortOrderOf (fold setListedOrder (take (Suc i) (zip ids [0..<length ids])) s) (ids ! i)
            = Some (int i)
          \<and> (ids ! i \<notin> set (drop (Suc i) ids) \<longrightarrow>
               sortOrderOf (snd (triggers_set_order valid ids s)) (ids ! i) = Some (int i))"
    if "i < length ids" "getControl s (ids ! i) = Some c" "supportsOptions c" for i c
    using that F occurrence_value [OF that] by blast
  have 3: "sortOrderOf (snd (triggers_set_order valid ids s)) (fst (unlistedTriggers ids s ! j))
          = Some (int (length ids) + int j)" if "j < length (unlistedTriggers ids s)" for j
    using that F by blast
  from 1 2 3 show ?thesis by blast
qed

theorem set_order_renumbers_witness:
  "isTriggerId ''trigger:b'' \<and> isTriggerId ''trigger:zz''
   \<and> fst (triggers_set_order isTriggerId [''trigger:b'', ''trigger:zz''] trigger_state) = True
   \<and> sortOrderOf (snd (triggers_set_order isTriggerId [''trigger:b'', ''trigger:zz''] trigger_state))
        ''trigger:b'' = Some 0
   \<and> sortOrderOf (snd (triggers_set_order isTriggerId [''trigger:b'', ''trigger:zz''] trigger_state))
        ''trigger:c'' = Some 2
   \<and> sortOrderOf (snd (triggers_set_order isTriggerId [''trigger:b'', ''trigger:zz''] trigger_state))
        ''trigger:a'' = Some 3"
proof -
  let ?ids = "[''trigger:b'', ''trigger:zz'']"
  have d: "distinct (map fst (controls trigger_state))" by (simp add: trigger_state_def)
  have v: "\<forall>t\<in>set ?ids. isTriggerId t" by (simp add: isTriggerId_def)
  have c: "getControl trigger_state (?ids ! 0) = Some (trigger_control 7)"
    by (simp add: getControl_def trigger_state_def)
  have so: "supportsOptions (trigger_control 7)" by (simp add: trigger_control_def)
  have l: "?ids ! 0 \<notin> set (drop (Suc 0) ?ids)" by simp
  have u: "unlistedTriggers ?ids trigger_state
      = [(''trigger:c'', trigger_control 2), (''trigger:a'', trigger_control 5)]"
    by (simp add: unlistedTriggers_def getAllTriggers_def trigger_state_def trigger_control_def
        button_control_def)
  note T = set_order_renumbers [OF d v]
  from T have 0: "fst (triggers_set_order isTriggerId ?ids trigger_state) = True"
    by blast
  from T c so l have "sortOrderOf (snd (triggers_set_order isTriggerId ?ids trigger_state)) (?ids ! 0)
      = Some (int 0)" by (metis length_Cons zero_less_Suc)
  then have 1: "sortOrderOf (snd (triggers_set_order isTriggerId ?ids trigger_state)) ''trigger:b''
      = Some 0" by simp
  from T have "\<forall>j<length (unlistedTriggers ?ids trigger_state).
      sortOrderOf (snd (triggers_set_order isTriggerId ?ids trigger_state))
        (fst (unlistedTriggers ?ids trigger_state ! j)) = Some (int (length ?ids) + int j)" by blast
  then have "\<forall>j<2. sortOrderOf (snd (triggers_set_order isTriggerId ?ids trigger_state))
      (fst ([(''trigger:c'', trigger_control 2), (''trigger:a'', trigger_control 5)] ! j))
      = Some (2 + int j)" unfolding u by simp
  then have 2: "sortOrderOf (snd (triggers_set_order isTriggerId ?ids trigger_state)) ''trigger:c''
      = Some 2"
    and 3: "sortOrderOf (snd (triggers_set_order isTriggerId ?ids trigger_state)) ''trigger:a''
      = Some 3"
    by (auto simp: less_2_cases_iff)
  from v 0 1 2 3 show ?thesis by simp
qed

section \<open>Child groups of an action instance\<close>

lemma construct_ex_group:
  "construct ex_defs ex_nanoid False ex_group 0 = (ex_group_fragment, 0)"
  by (simp add: ex_group_def ex_group_fragment_def leaf_def leaf_fragment_def group_data_def
      leaf_data_def getOrCreateActionGroup_def getDefinition_def ex_defs_def setGroup_def)

lemma setInstance_ex_group:
  "fst (setInstance ex_host ''bank:1'' ''conn1'' ex_group_fragment) = moved_group_fragment"
  by (simp add: setInstance_def Let_def ex_group_fragment_def moved_group_fragment_def
      group_data_def)

text \<open>
  Claim C4, as amended. \<^verbatim>\<open>addChild\<close> on an instance whose connection is not
  \<^verbatim>\<open>internal\<close> throws and leaves the instance as it is. For a group that the children
  map does not hold yet, \<^verbatim>\<open>#getOrCreateActionGroup\<close> throws, leaving the instance as it
  is, when the connection is not \<^verbatim>\<open>internal\<close>, when there is no definition, and when
  the definition does not declare the group. A group that the map already holds is
  returned without any of these checks.
\<close>

theorem child_group_guard:
  "(connectionId (adata a) \<noteq> ''internal'' \<longrightarrow>
      addChild defs nanoid groupId act a n = ((Inl OnlyInternalActionsCanHaveChildren, a), n))
   \<and> (map_of (children a) groupId = None \<and> connectionId (adata a) \<noteq> ''internal'' \<longrightarrow>
      getOrCreateActionGroup defs groupId a = (Inl ActionCannotAcceptChildren, a))
   \<and> (map_of (children a) groupId = None \<and> connectionId (adata a) = ''internal''
        \<and> \<not> groupDeclared defs a groupId \<longrightarrow>
      getOrCreateActionGroup defs groupId a =
        (Inl (if getDefinition defs a = None then ActionCannotAcceptChildren
              else ActionCannotAcceptChildrenInGroup), a))
   \<and> (\<forall>existing. map_of (children a) groupId = Some existing \<longrightarrow>
      getOrCreateActionGroup defs groupId a = (Inr existing, a))"
  by (auto simp: addChild_def getOrCreateActionGroup_def groupDeclared_def split: option.splits)

text \<open>
  Claim C4 as stated fails for \<^verbatim>\<open>#getOrCreateActionGroup\<close>: an internal action built
  with a child group and then given another connection by \<^verbatim>\<open>setInstance\<close> keeps the
  group, and the call returns it although the connection is not \<^verbatim>\<open>internal\<close> and no
  definition declares it.
\<close>

theorem child_group_guard_counterexample:
  "connectionId (adata (fst (setInstance ex_host ''bank:1'' ''conn1''
       (fst (construct ex_defs ex_nanoid False ex_group 0))))) = ''conn1''
   \<and> \<not> groupDeclared ex_defs (fst (setInstance ex_host ''bank:1'' ''conn1''
       (fst (construct ex_defs ex_nanoid False ex_group 0)))) ''default''
   \<and> getOrCreateActionGroup ex_defs ''default''
       (fst (setInstance ex_host ''bank:1'' ''conn1'' (fst (construct ex_defs ex_nanoid False ex_group 0))))
     = (Inr [leaf_fragment ''c1'' ''conn1'', leaf_fragment ''c2'' ''conn2''],
        fst (setInstance ex_host ''bank:1'' ''conn1'' (fst (construct ex_defs ex_nanoid False ex_group 0))))"
  by (simp add: construct_ex_group setInstance_ex_group)
     (simp add: moved_group_fragment_def group_data_def getOrCreateActionGroup_def groupDeclared_def
      getDefinition_def ex_defs_def)

theorem child_group_guard_witness:
  "connectionId (adata (leaf_fragment ''c1'' ''conn1'')) \<noteq> ''internal''
   \<and> addChild ex_defs ex_nanoid ''default'' (leaf ''c2'' ''conn2'') (leaf_fragment ''c1'' ''conn1'') 0
       = ((Inl OnlyInternalActionsCanHaveChildren, leaf_fragment ''c1'' ''conn1''), 0)
   \<and> getOrCreateActionGroup ex_defs ''default'' (leaf_fragment ''c1'' ''conn1'')
       = (Inl ActionCannotAcceptChildren, leaf_fragment ''c1'' ''conn1'')
   \<and> \<not> groupDeclared ex_defs ex_group_fragment ''else''
   \<and> getOrCreateActionGroup ex_defs ''else'' ex_group_fragment
       = (Inl ActionCannotAcceptChildrenInGroup, ex_group_fragment)
   \<and> getOrCreateActionGroup ex_defs ''default'' ex_group_fragment
       = (Inr [leaf_fragment ''c1'' ''conn1'', leaf_fragment ''c2'' ''conn2''], ex_group_fragment)"
proof -
  let ?l = "leaf_fragment ''c1'' ''conn1''"
  let ?g = ex_group_fragment
  have 1: "connectionId (adata ?l) \<noteq> ''internal''" by (simp add: leaf_fragment_def leaf_data_def)
  have 2: "map_of (children ?l) ''default'' = None" by (simp add: leaf_fragment_def)
  have 3: "map_of (children ?g) ''else'' = None" by (simp add: ex_group_fragment_def)
  have 4: "connectionId (adata ?g) = ''internal''" by (simp add: ex_group_fragment_def group_data_def)
  have 5: "\<not> groupDeclared ex_defs ?g ''else''"
    by (simp add: groupDeclared_def getDefinition_def ex_group_fragment_def group_data_def ex_defs_def)
  have 6: "getDefinition ex_defs ?g \<noteq> None"
    by (simp add: getDefinition_def ex_group_fragment_def group_data_def ex_defs_def)
  have 7: "map_of (children ?g) ''default''
      = Some [leaf_fragment ''c1'' ''conn1'', leaf_fragment ''c2'' ''conn2'']"
    by (simp add: ex_group_fragment_def)
  from child_group_guard [of ?l ex_defs ex_nanoid "''default''" "leaf ''c2'' ''conn2''" 0] 1 2
  have a: "addChild ex_defs ex_nanoid ''default'' (leaf ''c2'' ''conn2'') ?l 0
       = ((Inl OnlyInternalActionsCanHaveChildren, ?l), 0)"
    and b: "getOrCreateActionGroup ex_defs ''default'' ?l = (Inl ActionCannotAcceptChildren, ?l)"
    by simp_all
  from child_group_guard [of ?g ex_defs ex_nanoid "''else''" "leaf ''c2'' ''conn2''" 0] 3 4 5 6
  have c: "getOrCreateActionGroup ex_defs ''else'' ?g = (Inl ActionCannotAcceptChildrenInGroup, ?g)"
    by simp
  from child_group_guard [of ?g ex_defs ex_nanoid "''default''" "leaf ''c2'' ''conn2''" 0] 7
  have d: "getOrCreateActionGroup ex_defs ''default'' ?g
       = (Inr [leaf_fragment ''c1'' ''conn1'', leaf_fragment ''c2'' ''conn2''], ?g)" by simp
  from 1 5 a b c d show ?thesis by simp
qed

section \<open>The child-group invariant\<close>

lemma set_getAll:
  "set (getAllChildren a) = (\<Union>g\<in>set (children a). \<Union>x\<in>set (snd g). insert x (set (getAllChildren x)))"
  "set (getAllActions xs) = (\<Union>x\<in>set xs. insert x (set (getAllChildren x)))"
  "set (getAllOfGroups gs) = (\<Union>g\<in>set gs. \<Union>x\<in>set (snd g). insert x (set (getAllChildren x)))"
  by (induction a and xs and gs rule: getAllChildren_getAllActions_getAllOfGroups.induct) auto

lemma deep_iff:
  "childrenDeclaredDeep defs a \<longleftrightarrow>
     childrenDeclared defs a
     \<and> (\<forall>g\<in>set (children a). \<forall>x\<in>set (snd g). childrenDeclaredDeep defs x)"
  by (cases a) (auto simp: childrenDeclaredDeep_def list_all_iff set_getAll(2,3))

lemma update_fresh: "k \<notin> fst ` set al \<Longrightarrow> AList.update k v al = al @ [(k, v)]"
  by (induction al) auto

lemma getOrCreate_deep:
  assumes "childrenDeclaredDeep defs a" and "getOrCreateActionGroup defs g a = (r, a1)"
  shows "childrenDeclaredDeep defs a1 \<and> adata a1 = adata a
    \<and> (\<forall>grp. r = Inr grp \<longrightarrow> map_of (children a1) g = Some grp)
    \<and> (\<forall>e. r = Inl e \<longrightarrow> a1 = a)"
proof (cases "map_of (children a) g")
  case (Some existing)
  with assms show ?thesis by (auto simp: getOrCreateActionGroup_def)
next
  case None
  then have notin: "g \<notin> fst ` set (children a)" by (simp add: map_of_eq_None_iff)
  show ?thesis
  proof (cases r)
    case (Inl e)
    with assms None show ?thesis
      by (auto simp: getOrCreateActionGroup_def split: option.splits if_splits)
  next
    case (Inr grp)
    with assms(2) None
    have int: "connectionId (adata a) = ''internal''" and decl: "groupDeclared defs a g"
      and a1: "a1 = Fragment (adata a) (dataChildren a) (AList.update g [] (children a))" and grp: "grp = []"
      by (auto simp: getOrCreateActionGroup_def groupDeclared_def split: option.splits if_splits)
    have ch: "AList.update g [] (children a) = children a @ [(g, [])]"
      using notin by (rule update_fresh)
    from assms(1) have loc: "childrenDeclared defs a"
      and below: "\<forall>h\<in>set (children a). \<forall>x\<in>set (snd h). childrenDeclaredDeep defs x"
      by (simp_all add: deep_iff [of defs a])
    have "childrenDeclared defs a1"
      using loc int decl notin unfolding a1 ch
      by (cases a) (auto simp: childrenDeclared_def list_all_iff groupDeclared_def getDefinition_def)
    moreover have "\<forall>h\<in>set (children a1). \<forall>x\<in>set (snd h). childrenDeclaredDeep defs x"
      using below unfolding a1 ch by auto
    ultimately have "childrenDeclaredDeep defs a1" by (simp add: deep_iff [of defs a1])
    moreover have "map_of (children a1) g = Some []" unfolding a1 by (simp add: update_conv)
    ultimately show ?thesis using Inr a1 grp by simp
  qed
qed


lemma children_update_deep:
  assumes "childrenDeclaredDeep defs (Fragment d sc ch)" and "g \<in> fst ` set ch"
    and "\<forall>x\<in>set xs. childrenDeclaredDeep defs x"
  shows "childrenDeclaredDeep defs (Fragment d sc (AList.update g xs ch))"
proof -
  have keys: "map fst (AList.update g xs ch) = map fst ch"
    using assms(2) by (simp add: update_keys)
  have sub: "set (AList.update g xs ch) \<subseteq> insert (g, xs) (set ch)"
    by (induction ch) auto
  from assms(1) have loc: "childrenDeclared defs (Fragment d sc ch)"
    and below: "\<forall>h\<in>set ch. \<forall>x\<in>set (snd h). childrenDeclaredDeep defs x"
    by (simp_all add: deep_iff [of defs "Fragment d sc ch"])
  have ne: "ch \<noteq> []" using assms(2) by auto
  have "childrenDeclared defs (Fragment d sc (AList.update g xs ch))"
    using loc ne keys
    by (auto simp: childrenDeclared_def list_all_iff groupDeclared_def getDefinition_def)
  moreover have "\<forall>h\<in>set (AList.update g xs ch). \<forall>x\<in>set (snd h). childrenDeclaredDeep defs x"
    using below assms(3) sub by fastforce
  ultimately show ?thesis
    by (simp add: deep_iff [of defs "Fragment d sc (AList.update g xs ch)"])
qed

lemma setGroup_deep:
  assumes "childrenDeclaredDeep defs a" and "map_of (children a) g = Some grp"
    and "\<forall>x\<in>set xs. childrenDeclaredDeep defs x"
  shows "childrenDeclaredDeep defs (setGroup g xs a)"
proof -
  have "(g, grp) \<in> set (children a)" using assms(2) by (rule map_of_SomeD)
  then have "g \<in> fst ` set (children a)" by force
  with assms(1,3) show ?thesis
    unfolding setGroup_def by (cases a) (simp add: children_update_deep)
qed

lemma group_members_deep:
  assumes "childrenDeclaredDeep defs a" and "map_of (children a) g = Some grp"
  shows "\<forall>x\<in>set grp. childrenDeclaredDeep defs x"
proof -
  have "(g, grp) \<in> set (children a)" using assms(2) by (rule map_of_SomeD)
  with assms(1) show ?thesis by (auto simp: deep_iff [of defs a])
qed

lemma construct_deep:
  "childrenDeclaredDeep defs (fst (construct defs nanoid isCloned stored n))"
  "\<forall>x\<in>set (fst (loadStorage defs nanoid isCloned storeds n)). childrenDeclaredDeep defs x"
  "childrenDeclaredDeep defs this \<Longrightarrow>
     childrenDeclaredDeep defs (fst (loadChildren defs nanoid isCloned groups this n))"
proof (induction defs nanoid isCloned stored n and defs nanoid isCloned storeds n
    and defs nanoid isCloned groups this n rule: construct_loadStorage_loadChildren.induct)
  case (1 defs nanoid isCloned d sc n)
  have leaf: "childrenDeclaredDeep defs (Fragment d' sc' [])" for d' sc'
    by (simp add: childrenDeclaredDeep_def childrenDeclared_def)
  show ?case
  proof (cases "connectionId d = ''internal''")
    case True
    with 1 [OF refl refl True leaf] show ?thesis by (simp add: Let_def)
  next
    case False
    then show ?thesis by (simp add: Let_def leaf)
  qed
next
  case (2 defs nanoid isCloned n)
  show ?case by simp
next
  case (3 defs nanoid isCloned x xs n)
  obtain a n1 where c: "construct defs nanoid isCloned x n = (a, n1)" by (cases "construct defs nanoid isCloned x n")
  obtain as n2 where l: "loadStorage defs nanoid isCloned xs n1 = (as, n2)"
    by (cases "loadStorage defs nanoid isCloned xs n1")
  from 3(1) c have "childrenDeclaredDeep defs a" by simp
  moreover from 3(2) [OF c [symmetric]] l have "\<forall>x\<in>set as. childrenDeclaredDeep defs x" by simp
  ultimately show ?case using c l by simp
next
  case (4 defs nanoid isCloned this n)
  then show ?case by simp
next
  case (5 defs nanoid isCloned g gs this n)
  obtain r this1 where goc: "getOrCreateActionGroup defs (fst g) this = (r, this1)"
    by (cases "getOrCreateActionGroup defs (fst g) this")
  note G = getOrCreate_deep [OF "5.prems" goc]
  show ?case
  proof (cases r)
    case (Inl e)
    with 5(1) [OF goc [symmetric] Inl] G goc "5.prems" show ?thesis by simp
  next
    case (Inr childGroup)
    obtain actions n1 where l: "loadStorage defs nanoid isCloned (snd g) n = (actions, n1)"
      by (cases "loadStorage defs nanoid isCloned (snd g) n")
    from 5(2) [OF goc [symmetric] Inr] l have "\<forall>x\<in>set actions. childrenDeclaredDeep defs x" by simp
    moreover from G Inr have "map_of (children this1) (fst g) = Some childGroup" by simp
    ultimately have "childrenDeclaredDeep defs (setGroup (fst g) actions this1)"
      using G by (intro setGroup_deep) auto
    with 5(3) [OF goc [symmetric] Inr l [symmetric]] goc Inr l show ?thesis by simp
  qed
qed


lemma addChild_deep:
  assumes "childrenDeclaredDeep defs a" and "addChild defs nanoid g stored a n = ((r, a'), n')"
  shows "childrenDeclaredDeep defs a'"
proof (cases "connectionId (adata a) = ''internal''")
  case False
  with assms show ?thesis by (simp add: addChild_def)
next
  case True
  obtain q a1 where goc: "getOrCreateActionGroup defs g a = (q, a1)"
    by (cases "getOrCreateActionGroup defs g a")
  note G = getOrCreate_deep [OF assms(1) goc]
  show ?thesis
  proof (cases q)
    case (Inl e)
    with assms(2) True goc G show ?thesis by (auto simp: addChild_def)
  next
    case (Inr grp)
    obtain new n1 where c: "construct defs nanoid False stored n = (new, n1)"
      by (cases "construct defs nanoid False stored n")
    have new: "childrenDeclaredDeep defs new"
      using construct_deep(1) [of defs nanoid False stored n] c by simp
    from G Inr have m: "map_of (children a1) g = Some grp" by simp
    have "\<forall>x\<in>set (grp @ [new]). childrenDeclaredDeep defs x"
      using group_members_deep [OF _ m] G new by auto
    then have "childrenDeclaredDeep defs (setGroup g (grp @ [new]) a1)"
      using G m by (intro setGroup_deep) auto
    with assms(2) True goc Inr c show ?thesis by (simp add: addChild_def addAction_def)
  qed
qed

lemma pushChild_deep:
  assumes "childrenDeclaredDeep defs a" and "childrenDeclaredDeep defs act"
    and "pushChild defs act g i a = (r, a')"
  shows "childrenDeclaredDeep defs a'"
proof -
  obtain q a1 where goc: "getOrCreateActionGroup defs g a = (q, a1)"
    by (cases "getOrCreateActionGroup defs g a")
  note G = getOrCreate_deep [OF assms(1) goc]
  show ?thesis
  proof (cases q)
    case (Inl e)
    with assms(3) goc G show ?thesis by (auto simp: pushChild_def)
  next
    case (Inr grp)
    from G Inr have m: "map_of (children a1) g = Some grp" by simp
    have "\<forall>x\<in>set (pushAction act i grp). childrenDeclaredDeep defs x"
      using group_members_deep [OF _ m] G assms(2)
      by (auto simp: pushAction_def dest: in_set_takeD in_set_dropD)
    then have "childrenDeclaredDeep defs (setGroup g (pushAction act i grp) a1)"
      using G m by (intro setGroup_deep) auto
    with assms(3) goc Inr show ?thesis by (simp add: pushChild_def)
  qed
qed

lemma canAcceptChild_deep:
  assumes "childrenDeclaredDeep defs a" and "canAcceptChild defs accept g act a = (r, a')"
  shows "childrenDeclaredDeep defs a'"
proof -
  obtain q a1 where goc: "getOrCreateActionGroup defs g a = (q, a1)"
    by (cases "getOrCreateActionGroup defs g a")
  note G = getOrCreate_deep [OF assms(1) goc]
  from assms(2) goc G show ?thesis by (cases q) (auto simp: canAcceptChild_def)
qed

lemma nested_deep:
  assumes "childrenDeclaredDeep defs (Fragment d sc ch)" and "map_of ch g = Some xs"
    and "childrenDeclaredDeep defs a'"
  shows "childrenDeclaredDeep defs (Fragment d sc (AList.update g (xs[i := a']) ch))"
proof -
  have m: "(g, xs) \<in> set ch" using assms(2) by (rule map_of_SomeD)
  then have k: "g \<in> fst ` set ch" by force
  have "\<forall>x\<in>set xs. childrenDeclaredDeep defs x"
    using assms(1) m by (auto simp: deep_iff [of defs "Fragment d sc ch"])
  then have "\<forall>x\<in>set (xs[i := a']). childrenDeclaredDeep defs x"
    using assms(3) by (auto dest: set_update_subset_insert [THEN subsetD])
  with assms(1) k show ?thesis by (rule children_update_deep)
qed

lemma reachable_deep: "reachable defs nanoid a \<Longrightarrow> childrenDeclaredDeep defs a"
proof (induction rule: reachable.induct)
  case (constructed isCloned stored n a n')
  with construct_deep(1) [of defs nanoid isCloned stored n] show ?case by simp
next
  case (added a groupId stored n r a' n')
  then show ?case by (auto intro: addChild_deep)
next
  case (pushed a act groupId index r a')
  then show ?case by (auto intro: pushChild_deep)
next
  case (asked a act canAcceptAction groupId r a')
  then show ?case by (auto intro: canAcceptChild_deep)
next
  case (nested d sc ch groupId actions index a')
  then show ?case by (auto intro: nested_deep)
qed

text \<open>
  Claim C7. Take any instance that construction from stored data, \<^verbatim>\<open>addChild\<close>,
  \<^verbatim>\<open>pushChild\<close> and \<^verbatim>\<open>canAcceptChild\<close> can produce, in any sequence. For the
  instance and every instance below it, each key of the children map is a child group
  declared by the instance's definition, on an instance whose connection is
  \<^verbatim>\<open>internal\<close>; and an instance whose connection is not \<^verbatim>\<open>internal\<close> has an empty
  children map. (Neither the definitions nor the kind and connection of an instance change
  under these operations, so a key declared now was declared when it was inserted.)
\<close>

theorem children_keys_declared:
  assumes "reachable defs nanoid a"
  shows "\<forall>x \<in> set (a # getAllChildren a).
           (\<forall>groupId \<in> set (map fst (children x)).
               connectionId (adata x) = ''internal''
               \<and> (\<exists>definition. getDefinition defs x = Some definition
                     \<and> groupId \<in> set (supportsChildActionGroups definition)))
           \<and> (connectionId (adata x) \<noteq> ''internal'' \<longrightarrow> children x = [])"
proof -
  from assms have "childrenDeclaredDeep defs a" by (rule reachable_deep)
  then have "\<forall>x \<in> set (a # getAllChildren a). childrenDeclared defs x"
    by (simp add: childrenDeclaredDeep_def list_all_iff)
  moreover have "(\<forall>groupId \<in> set (map fst (children x)).
               connectionId (adata x) = ''internal''
               \<and> (\<exists>definition. getDefinition defs x = Some definition
                     \<and> groupId \<in> set (supportsChildActionGroups definition)))
           \<and> (connectionId (adata x) \<noteq> ''internal'' \<longrightarrow> children x = [])"
    if "childrenDeclared defs x" for x
    using that
    by (cases "getDefinition defs x")
      (auto simp: childrenDeclared_def list_all_iff groupDeclared_def)
  ultimately show ?thesis by blast
qed

theorem children_keys_declared_witness:
  "reachable ex_defs ex_nanoid ex_group_fragment
   \<and> children ex_group_fragment \<noteq> []
   \<and> connectionId (adata ex_group_fragment) = ''internal''
   \<and> getDefinition ex_defs ex_group_fragment = Some \<lparr>supportsChildActionGroups = [''default'']\<rparr>
   \<and> reachable ex_defs ex_nanoid (leaf_fragment ''c1'' ''conn1'')
   \<and> children (leaf_fragment ''c1'' ''conn1'') = []"
proof -
  let ?l = "leaf_fragment ''c1'' ''conn1''"
  let ?g = ex_group_fragment
  have r: "reachable ex_defs ex_nanoid ?g"
    by (rule reachable.constructed [OF construct_ex_group])
  have "construct ex_defs ex_nanoid False (leaf ''c1'' ''conn1'') 0 = (?l, 0)"
    by (simp add: leaf_def leaf_fragment_def leaf_data_def)
  then have r': "reachable ex_defs ex_nanoid ?l"
    by (rule reachable.constructed)
  have n: "connectionId (adata ?l) \<noteq> ''internal''" by (simp add: leaf_fragment_def leaf_data_def)
  have k: "''default'' \<in> set (map fst (children ?g))" by (simp add: ex_group_fragment_def)
  have d: "getDefinition ex_defs ?g = Some \<lparr>supportsChildActionGroups = [''default'']\<rparr>"
    by (simp add: getDefinition_def ex_group_fragment_def group_data_def ex_defs_def)
  from children_keys_declared [OF r] k have 1: "connectionId (adata ?g) = ''internal''"
    by auto
  from children_keys_declared [OF r'] n have 2: "children ?l = []"
    by auto
  from k have 3: "children ?g \<noteq> []" by auto
  from r r' 1 2 3 d show ?thesis by simp
qed

section \<open>Changing the connection of an action\<close>

lemma cleanup_only_deletes:
  "\<forall>e\<in>set (cleanup host a). isDelete e"
  "\<forall>e\<in>set (cleanup_list host xs). isDelete e"
  "\<forall>e\<in>set (cleanup_groups host gs). isDelete e"
  by (induction host a and host xs and host gs rule: cleanup_cleanup_list_cleanup_groups.induct)
    (auto simp: isDelete_def)

lemma subscribe_only_to:
  "c \<noteq> [] \<Longrightarrow> \<forall>e\<in>set (subscribe host controlId recursive (Some c) a). isUpdateTo c e"
  "c \<noteq> [] \<Longrightarrow> \<forall>e\<in>set (subscribe_list host controlId recursive (Some c) xs). isUpdateTo c e"
  "c \<noteq> [] \<Longrightarrow> \<forall>e\<in>set (subscribe_groups host controlId recursive (Some c) gs). isUpdateTo c e"
  by (induction host controlId recursive "Some c" a and host controlId recursive "Some c" xs
      and host controlId recursive "Some c" gs rule: subscribe_subscribe_list_subscribe_groups.induct)
    (auto simp: isUpdateTo_def subscribeSelf_def truthy_def)

text \<open>
  Claim C3, as amended. \<^verbatim>\<open>setInstance\<close> first cleans up: it sends only deletions,
  the first of them to the old connection (when that connection is there) with the
  instance as it was. It then stores the new connection id and subscribes, recursively and
  restricted to the new id. For a non-empty new id, everything sent after the reassignment
  is an update to the new connection, so a different old connection gets none. For the node
  itself the new connection gets at most one update: exactly one when the node is enabled,
  the new id is not \<^verbatim>\<open>internal\<close> and the connection is there, and none otherwise.
\<close>

theorem setInstance_notifications:
  "fst (setInstance host controlId instanceId a)
     = Fragment ((adata a)\<lparr>connectionId := instanceId\<rparr>) (dataChildren a) (children a)
   \<and> snd (setInstance host controlId instanceId a)
     = cleanup host a
       @ subscribe host controlId True (Some instanceId) (fst (setInstance host controlId instanceId a))
   \<and> (\<forall>e\<in>set (cleanup host a). isDelete e)
   \<and> (host (connectionId (adata a)) \<longrightarrow>
        (\<exists>rest. cleanup host a = ActionDelete (connectionId (adata a)) (asActionInstance a) # rest))
   \<and> (instanceId \<noteq> [] \<longrightarrow>
        (\<forall>e\<in>set (subscribe host controlId True (Some instanceId)
                     (fst (setInstance host controlId instanceId a))). isUpdateTo instanceId e))
   \<and> subscribe host controlId True (Some instanceId) (fst (setInstance host controlId instanceId a))
     = (if disabled (adata a) then []
        else (if instanceId \<noteq> ''internal'' \<and> host instanceId
              then [ActionUpdate instanceId
                      (asActionInstance (fst (setInstance host controlId instanceId a))) controlId]
              else [])
             @ subscribe_groups host controlId True (Some instanceId) (children a))"
proof -
  let ?a1 = "Fragment ((adata a)\<lparr>connectionId := instanceId\<rparr>) (dataChildren a) (children a)"
  have 1: "fst (setInstance host controlId instanceId a) = ?a1"
    by (simp add: setInstance_def Let_def)
  have 2: "snd (setInstance host controlId instanceId a)
     = cleanup host a @ subscribe host controlId True (Some instanceId) ?a1"
    by (simp add: setInstance_def Let_def)
  have 3: "\<forall>e\<in>set (cleanup host a). isDelete e" by (rule cleanup_only_deletes)
  have 4: "\<exists>rest. cleanup host a = ActionDelete (connectionId (adata a)) (asActionInstance a) # rest"
    if "host (connectionId (adata a))"
    using that by (cases a) simp
  have 5: "\<forall>e\<in>set (subscribe host controlId True (Some instanceId) ?a1). isUpdateTo instanceId e"
    if "instanceId \<noteq> []"
    using that by (rule subscribe_only_to)
  have 6: "subscribe host controlId True (Some instanceId) ?a1
     = (if disabled (adata a) then []
        else (if instanceId \<noteq> ''internal'' \<and> host instanceId
              then [ActionUpdate instanceId (asActionInstance ?a1) controlId] else [])
             @ subscribe_groups host controlId True (Some instanceId) (children a))"
    by (simp add: subscribeSelf_def truthy_def)
  from 1 2 3 4 5 6 show ?thesis by simp
qed

text \<open>
  Claim C3 as stated fails for a disabled action: \<^verbatim>\<open>subscribe\<close> returns at once, and
  the new connection, although it is there, receives no update.
\<close>

theorem setInstance_disabled_counterexample:
  "ex_host ''conn2''
   \<and> snd (setInstance ex_host ''bank:1'' ''conn2'' disabled_fragment)
       = [ActionDelete ''conn1'' disabled_leaf]
   \<and> filter (isUpdateTo ''conn2'') (snd (setInstance ex_host ''bank:1'' ''conn2'' disabled_fragment)) = []"
  by (simp add: setInstance_def Let_def disabled_fragment_def disabled_leaf_def disabled_data_def
      ex_host_def isUpdateTo_def)

theorem setInstance_notifications_witness:
  "ex_host (connectionId (adata (leaf_fragment ''c1'' ''conn1'')))
   \<and> fst (setInstance ex_host ''bank:1'' ''conn2'' (leaf_fragment ''c1'' ''conn1''))
       = leaf_fragment ''c1'' ''conn2''
   \<and> snd (setInstance ex_host ''bank:1'' ''conn2'' (leaf_fragment ''c1'' ''conn1''))
       = [ActionDelete ''conn1'' (leaf ''c1'' ''conn1''),
          ActionUpdate ''conn2'' (leaf ''c1'' ''conn2'') ''bank:1'']"
proof -
  let ?l = "leaf_fragment ''c1'' ''conn1''"
  have h: "ex_host (connectionId (adata ?l))"
    by (simp add: ex_host_def leaf_fragment_def leaf_data_def)
  have c: "cleanup ex_host ?l = [ActionDelete ''conn1'' (leaf ''c1'' ''conn1'')]"
    by (simp add: ex_host_def leaf_fragment_def leaf_def leaf_data_def)
  have d: "\<not> disabled (adata ?l)" by (simp add: leaf_fragment_def leaf_data_def)
  have ch: "children ?l = []" by (simp add: leaf_fragment_def)
  have n: "Fragment ((adata ?l)\<lparr>connectionId := ''conn2''\<rparr>) (dataChildren ?l) (children ?l)
      = leaf_fragment ''c1'' ''conn2''" by (simp add: leaf_fragment_def leaf_data_def)
  have a: "asActionInstance (leaf_fragment ''c1'' ''conn2'') = leaf ''c1'' ''conn2''"
    by (simp add: leaf_fragment_def leaf_def leaf_data_def)
  have h2: "ex_host ''conn2''" by (simp add: ex_host_def)
  note T = setInstance_notifications [of ex_host "''bank:1''" "''conn2''" ?l, unfolded n]
  from T have f: "fst (setInstance ex_host ''bank:1'' ''conn2'' ?l) = leaf_fragment ''c1'' ''conn2''"
    by blast
  from T have "subscribe ex_host ''bank:1'' True (Some ''conn2'')
      (fst (setInstance ex_host ''bank:1'' ''conn2'' ?l))
     = (if disabled (adata ?l) then []
        else (if ''conn2'' \<noteq> ''internal'' \<and> ex_host ''conn2''
              then [ActionUpdate ''conn2''
                      (asActionInstance (fst (setInstance ex_host ''bank:1'' ''conn2'' ?l))) ''bank:1'']
              else [])
             @ subscribe_groups ex_host ''bank:1'' True (Some ''conn2'') (children ?l))"
    by blast
  then have s: "subscribe ex_host ''bank:1'' True (Some ''conn2'')
      (fst (setInstance ex_host ''bank:1'' ''conn2'' ?l))
     = [ActionUpdate ''conn2'' (leaf ''c1'' ''conn2'') ''bank:1'']"
    unfolding f using d ch a h2 by simp
  from T have "snd (setInstance ex_host ''bank:1'' ''conn2'' ?l)
     = cleanup ex_host ?l
       @ subscribe ex_host ''bank:1'' True (Some ''conn2'')
           (fst (setInstance ex_host ''bank:1'' ''conn2'' ?l))" by blast
  with s c have "snd (setInstance ex_host ''bank:1'' ''conn2'' ?l)
       = [ActionDelete ''conn1'' (leaf ''c1'' ''conn1''),
          ActionUpdate ''conn2'' (leaf ''c1'' ''conn2'') ''bank:1'']" by simp
  with h f show ?thesis by simp
qed

section \<open>Copying a control\<close>




















end
